theory Spec2Isabelle
  imports Main "HOL-Library.AList" "HOL-Library.Multiset"
begin

section \<open>JavaScript values used by the routes\<close>

text \<open>
  \<^verbatim>\<open>storage.users\<close>, \<^verbatim>\<open>storage.posts\<close> and the local \<^verbatim>\<open>mutualCounts\<close> are plain object
  literals used as dictionaries. Their own properties are kept as an association list in
  insertion order, which is the order of \<^verbatim>\<open>Object.keys\<close>, \<^verbatim>\<open>Object.values\<close> and
  \<^verbatim>\<open>Object.entries\<close> for keys that are not array indices (every key here is a uuid, a
  seed id such as \<^verbatim>\<open>user-alice-0001\<close>, or a member name of \<^verbatim>\<open>Object.prototype\<close>).
  Assigning to an existing key keeps its position, assigning to a new key appends
  (\<^const>\<open>AList.update\<close>), and \<^verbatim>\<open>delete obj[k]\<close> removes the entry (\<^const>\<open>AList.delete\<close>).
\<close>

type_synonym 'a js_object = "(string \<times> 'a) list"

text \<open>
  A read \<^verbatim>\<open>obj[k]\<close> of an object literal that has no own property \<^verbatim>\<open>k\<close> continues on
  \<^verbatim>\<open>Object.prototype\<close>. Its members are functions (and, for \<^verbatim>\<open>__proto__\<close>, the prototype
  object itself), all of them truthy.
\<close>

definition object_prototype_keys :: "string list" where
  "object_prototype_keys =
     [''constructor'', ''hasOwnProperty'', ''isPrototypeOf'', ''propertyIsEnumerable'',
      ''toLocaleString'', ''toString'', ''valueOf'', ''__proto__'',
      ''__defineGetter__'', ''__defineSetter__'', ''__lookupGetter__'', ''__lookupSetter__'']"

datatype 'a js_prop = Own 'a | Inherited string | Undefined

definition js_get :: "'a js_object \<Rightarrow> string \<Rightarrow> 'a js_prop" where
  "js_get obj k =
     (case map_of obj k of
        Some v \<Rightarrow> Own v
      | None \<Rightarrow> if k \<in> set object_prototype_keys then Inherited k else Undefined)"

text \<open>Truthiness of a property whose own values are objects (users, posts).\<close>

fun truthy :: "'a js_prop \<Rightarrow> bool" where
  "truthy (Own v) = True"
| "truthy (Inherited k) = True"
| "truthy Undefined = False"

text \<open>\<^verbatim>\<open>k in obj\<close>: own or inherited.\<close>

definition js_in :: "'a js_object \<Rightarrow> string \<Rightarrow> bool" where
  "js_in obj k \<longleftrightarrow> k \<in> fst ` set obj \<or> k \<in> set object_prototype_keys"

text \<open>
  \<^verbatim>\<open>obj[k] = v\<close> for a primitive \<^verbatim>\<open>v\<close>: an own property is written, except that
  \<^verbatim>\<open>__proto__\<close> is an accessor whose setter ignores a value that is not an object.
\<close>

definition js_assign :: "'a js_object \<Rightarrow> string \<Rightarrow> 'a \<Rightarrow> 'a js_object" where
  "js_assign obj k v = (if k = ''__proto__'' then obj else AList.update k v obj)"

text \<open>
  \<^verbatim>\<open>new Set(xs)\<close>: the elements in order of first occurrence. Membership is
  \<^verbatim>\<open>SameValueZero\<close>, which on the values below is equality (see \<open>js_value\<close>).
\<close>

definition js_Set :: "'a list \<Rightarrow> 'a list" where
  "js_Set xs = foldl (\<lambda>s x. if x \<in> set s then s else s @ [x]) [] xs"

text \<open>
  \<^verbatim>\<open>xs.sort(cmp)\<close> is stable; \<^verbatim>\<open>cmp a b \<le> 0\<close> leaves \<^verbatim>\<open>a\<close> before \<^verbatim>\<open>b\<close>. For a
  comparator that is a total preorder the result is the one stable sorted permutation,
  which insertion from the right computes. For a comparator that is not one (the
  suggestion routes' comparator once a count is not a number) the language leaves the
  order to the engine; the function below then still returns a permutation, which need not
  be the engine's.
\<close>

fun js_insert :: "('a \<Rightarrow> 'a \<Rightarrow> int) \<Rightarrow> 'a \<Rightarrow> 'a list \<Rightarrow> 'a list" where
  "js_insert cmp x [] = [x]"
| "js_insert cmp x (y # ys) = (if cmp x y \<le> 0 then x # y # ys else y # js_insert cmp x ys)"

definition js_sort :: "('a \<Rightarrow> 'a \<Rightarrow> int) \<Rightarrow> 'a list \<Rightarrow> 'a list" where
  "js_sort cmp xs = foldr (js_insert cmp) xs []"

text \<open>\<^verbatim>\<open>xs.findIndex(P)\<close> and \<^verbatim>\<open>xs.splice(i, 1)\<close> for an index \<^verbatim>\<open>i \<ge> 0\<close>.\<close>

fun findIndex :: "('a \<Rightarrow> bool) \<Rightarrow> 'a list \<Rightarrow> int" where
  "findIndex P [] = - 1"
| "findIndex P (x # xs) =
     (if P x then 0 else (let i = findIndex P xs in if i = - 1 then - 1 else i + 1))"

definition splice1 :: "int \<Rightarrow> 'a list \<Rightarrow> 'a list" where
  "splice1 i xs = take (nat i) xs @ drop (nat i + 1) xs"

text \<open>
  \<^verbatim>\<open>s.trim()\<close> and \<^verbatim>\<open>s.toLowerCase()\<close>, on the ASCII range only (strings are byte lists
  here): white space and capital letters outside ASCII are left as they are.
\<close>

definition is_space :: "char \<Rightarrow> bool" where
  "is_space c \<longleftrightarrow> c \<in> set [CHR '' '', CHR 0x09, CHR 0x0A, CHR 0x0B, CHR 0x0C, CHR 0x0D]"

definition trim :: "string \<Rightarrow> string" where
  "trim s = rev (dropWhile is_space (rev (dropWhile is_space s)))"

definition toLowerCase :: "string \<Rightarrow> string" where
  "toLowerCase s =
     map (\<lambda>c. let n = (of_char c :: nat) in if 65 \<le> n \<and> n \<le> 90 then char_of (n + 32) else c) s"

subsection \<open>Values of a request body\<close>

text \<open>
  \<^verbatim>\<open>express.json()\<close> parses the body with \<^verbatim>\<open>JSON.parse\<close>, and the routes read its fields
  without testing their type (the user and post routes test \<^verbatim>\<open>typeof\<close> of the name and
  content fields only). A field is therefore any JSON value, or \<^verbatim>\<open>undefined\<close> when it is
  absent.

  A number is kept as the text \<^verbatim>\<open>String(n)\<close> prints for it (both zeros print \<^verbatim>\<open>0\<close>, and
  JSON has no \<^verbatim>\<open>NaN\<close>), so that two numbers are \<^verbatim>\<open>===\<close> exactly when their texts are equal.
  An array or an object is a reference: it carries the address of the object that
  \<^verbatim>\<open>JSON.parse\<close> made. Every parse makes new objects, so two arrays of two requests, or of
  two fields of one request, never have the same address (\<open>parsed_fresh\<close> below). With
  that, \<^verbatim>\<open>===\<close> and the \<^verbatim>\<open>SameValueZero\<close> of a \<^verbatim>\<open>Set\<close> are equality of these values.
\<close>

datatype js_value =
    JUndef | JNull | JBool bool | JNum string | JStr string
  | JArr nat "js_value list" | JObj nat "(string \<times> js_value) list"

fun address_of :: "js_value \<Rightarrow> nat list" where
  "address_of (JArr r xs) = [r]"
| "address_of (JObj r fs) = [r]"
| "address_of v = []"

text \<open>
  \<^verbatim>\<open>!v\<close>, and the truthiness that \<^verbatim>\<open>v ? x : y\<close> and \<^verbatim>\<open>v || x\<close> test: \<^verbatim>\<open>undefined\<close>,
  \<^verbatim>\<open>null\<close>, \<^verbatim>\<open>false\<close>, \<^verbatim>\<open>0\<close> and the empty string are falsy, every array and object is
  truthy.
\<close>

fun js_falsy :: "js_value \<Rightarrow> bool" where
  "js_falsy JUndef = True"
| "js_falsy JNull = True"
| "js_falsy (JBool b) = (\<not> b)"
| "js_falsy (JNum t) = (t = ''0'')"
| "js_falsy (JStr s) = (s = [])"
| "js_falsy (JArr r xs) = False"
| "js_falsy (JObj r fs) = False"

fun js_truthy :: "js_value \<Rightarrow> bool" where
  "js_truthy JUndef = False"
| "js_truthy JNull = False"
| "js_truthy (JBool b) = b"
| "js_truthy (JNum t) = (t \<noteq> ''0'')"
| "js_truthy (JStr s) = (s \<noteq> [])"
| "js_truthy (JArr r xs) = True"
| "js_truthy (JObj r fs) = True"

text \<open>
  What \<^verbatim>\<open>String(n)\<close> can print for a number: at most 25 characters out of the digits,
  the signs, the point, \<^verbatim>\<open>e\<close> and the letters of \<^verbatim>\<open>Infinity\<close>. A parsed value holds
  such numbers only, and no \<^verbatim>\<open>undefined\<close> inside an array or an object.
\<close>

definition number_text :: "string \<Rightarrow> bool" where
  "number_text t \<longleftrightarrow> t \<noteq> [] \<and> length t \<le> 25 \<and> set t \<subseteq> set ''0123456789+-.eInfity''"

fun wf_value :: "js_value \<Rightarrow> bool" where
  "wf_value JUndef = True"
| "wf_value JNull = True"
| "wf_value (JBool b) = True"
| "wf_value (JNum t) = number_text t"
| "wf_value (JStr s) = True"
| "wf_value (JArr r xs) = list_all (\<lambda>x. x \<noteq> JUndef \<and> wf_value x) xs"
| "wf_value (JObj r fs) = list_all (\<lambda>e. snd e \<noteq> JUndef \<and> wf_value (snd e)) fs"

text \<open>
  \<^verbatim>\<open>obj[v]\<close> turns \<^verbatim>\<open>v\<close> into a property key with \<^verbatim>\<open>ToString\<close>. An array prints its
  elements joined by commas (\<^verbatim>\<open>null\<close> prints nothing there): \<^verbatim>\<open>["user-alice-0001"]\<close>
  becomes the key \<^verbatim>\<open>user-alice-0001\<close>. An object prints \<^verbatim>\<open>[object Object]\<close>, unless it
  has an own property \<^verbatim>\<open>toString\<close>: that value is no function, \<^verbatim>\<open>valueOf\<close> gives no
  primitive either, and the conversion raises a \<^verbatim>\<open>TypeError\<close> (\<^const>\<open>None\<close>).
\<close>

fun to_key :: "js_value \<Rightarrow> string option"
  and join_keys :: "js_value list \<Rightarrow> string option" where
  "to_key JUndef = Some ''undefined''"
| "to_key JNull = Some ''null''"
| "to_key (JBool b) = Some (if b then ''true'' else ''false'')"
| "to_key (JNum t) = Some t"
| "to_key (JStr s) = Some s"
| "to_key (JArr r xs) = join_keys xs"
| "to_key (JObj r fs) = (if ''toString'' \<in> fst ` set fs then None else Some ''[object Object]'')"
| "join_keys [] = Some []"
| "join_keys (x # xs) =
     (case (if x = JUndef \<or> x = JNull then Some [] else to_key x) of
        None \<Rightarrow> None
      | Some s \<Rightarrow>
          if xs = [] then Some s
          else (case join_keys xs of None \<Rightarrow> None | Some t \<Rightarrow> Some (s @ '','' @ t)))"

text \<open>\<^verbatim>\<open>obj[v]\<close> for a value \<^verbatim>\<open>v\<close>; \<^const>\<open>None\<close> when the conversion of \<^verbatim>\<open>v\<close> raises.\<close>

definition js_get_by :: "'a js_object \<Rightarrow> js_value \<Rightarrow> 'a js_prop option" where
  "js_get_by obj v = map_option (js_get obj) (to_key v)"

text \<open>\<^verbatim>\<open>v || null\<close>\<close>

definition or_null :: "js_value \<Rightarrow> js_value" where
  "or_null v = (if js_truthy v then v else JNull)"

text \<open>The characters of a value that \<^verbatim>\<open>typeof\<close> has found to be a string.\<close>

fun string_of :: "js_value \<Rightarrow> string" where
  "string_of (JStr s) = s"
| "string_of v = []"

section \<open>The store (storage.js)\<close>

text \<open>
  Timestamps are the epoch milliseconds of the ISO-8601 strings the code stores:
  \<^verbatim>\<open>new Date(d.toISOString())\<close> gives back the same instant, and the code only ever
  subtracts two parsed dates. The fields that a route copies from the body as they come
  (\<^verbatim>\<open>authorId\<close>, \<^verbatim>\<open>followerId\<close>, \<^verbatim>\<open>followeeId\<close>, \<^verbatim>\<open>userId\<close>, \<^verbatim>\<open>mediaUrl\<close>,
  \<^verbatim>\<open>profilePicUrl\<close>) are values; \<^verbatim>\<open>postId\<close> of a like is the \<^verbatim>\<open>:id\<close> of the URL, a string.
\<close>

record user =
  user_id :: string
  username :: string
  displayName :: string
  bio :: string
  profilePicUrl :: js_value
  user_createdAt :: int

record post =
  post_id :: string
  authorId :: js_value
  content :: string
  mediaType :: js_value
  mediaUrl :: js_value
  createdAt :: int
  likesCount :: int

record follow_edge =
  followerId :: js_value
  followeeId :: js_value

record like_edge =
  userId :: js_value
  postId :: string

record storage =
  users :: "user js_object"
  posts :: "post js_object"
  follows :: "follow_edge list"
  likes :: "like_edge list"

definition empty_storage :: storage where
  "empty_storage = \<lparr>users = [], posts = [], follows = [], likes = []\<rparr>"

definition reset :: "storage \<Rightarrow> storage" where
  "reset st = st\<lparr>users := [], posts := [], follows := [], likes := []\<rparr>"

text \<open>
  A failed request: the HTTP status and the \<^verbatim>\<open>error\<close> message of the JSON body. An
  exception in a handler reaches the error handler of \<^verbatim>\<open>server.js\<close>, which answers 500.
\<close>

datatype failure = Failure (status: nat) (message: string)

definition internal_error :: failure where
  "internal_error = Failure 500 ''Internal Server Error''"

section \<open>routes/follows.js\<close>

text \<open>
  \<^verbatim>\<open>followerId\<close> and \<^verbatim>\<open>followeeId\<close> are the body's fields as parsed. The guards are in
  the order of the source: presence, \<^verbatim>\<open>===\<close>, the two reads of \<^verbatim>\<open>storage.users\<close> (each
  converts its id to a key), the duplicate test with \<^verbatim>\<open>===\<close> on both ids.
\<close>

definition follow ::
  "storage \<Rightarrow> js_value \<Rightarrow> js_value \<Rightarrow> (failure + follow_edge) \<times> storage" where
  "follow st a b =
     (if js_falsy a \<or> js_falsy b then
        (Inl (Failure 400 ''followerId and followeeId are required''), st)
      else if a = b then
        (Inl (Failure 400 ''a user cannot follow themselves''), st)
      else
        (case js_get_by (users st) a of
           None \<Rightarrow> (Inl internal_error, st)
         | Some follower \<Rightarrow>
             if \<not> truthy follower then
               (Inl (Failure 404 ''follower user not found''), st)
             else
               (case js_get_by (users st) b of
                  None \<Rightarrow> (Inl internal_error, st)
                | Some followee \<Rightarrow>
                    if \<not> truthy followee then
                      (Inl (Failure 404 ''followee user not found''), st)
                    else if list_ex (\<lambda>f. followerId f = a \<and> followeeId f = b) (follows st) then
                      (Inl (Failure 400 ''already following this user''), st)
                    else
                      (Inr \<lparr>followerId = a, followeeId = b\<rparr>,
                       st\<lparr>follows := follows st @ [\<lparr>followerId = a, followeeId = b\<rparr>]\<rparr>))))"

definition unfollow ::
  "storage \<Rightarrow> js_value \<Rightarrow> js_value \<Rightarrow> (failure + string) \<times> storage" where
  "unfollow st a b =
     (if js_falsy a \<or> js_falsy b then
        (Inl (Failure 400 ''followerId and followeeId are required''), st)
      else
        (let index = findIndex (\<lambda>f. followerId f = a \<and> followeeId f = b) (follows st) in
         if index = - 1 then
           (Inl (Failure 404 ''follow relationship not found''), st)
         else
           (Inr ''unfollowed successfully'', st\<lparr>follows := splice1 index (follows st)\<rparr>)))"

section \<open>routes/likes.js\<close>

text \<open>
  \<^verbatim>\<open>post.likesCount += 1\<close> writes through the reference held in \<^verbatim>\<open>storage.posts\<close>. When
  \<^verbatim>\<open>storage.posts[postId]\<close> is an inherited member the write lands on that member, no
  stored post changes, and the response carries \<^verbatim>\<open>NaN\<close> (\<^const>\<open>None\<close> below). The
  only name such a write can add to \<^verbatim>\<open>Object.prototype\<close> is \<^verbatim>\<open>likesCount\<close>, with the
  falsy value \<^verbatim>\<open>NaN\<close>; no route reads it, because no id of a stored user or post is
  \<^verbatim>\<open>likesCount\<close> and a falsy read counts as not found.
\<close>

definition adjust :: "(post \<Rightarrow> post) \<Rightarrow> string \<Rightarrow> post js_object \<Rightarrow> post js_object" where
  "adjust f k obj = map (\<lambda>(k', p). if k' = k then (k', f p) else (k', p)) obj"

definition read_likesCount :: "post js_object \<Rightarrow> string \<Rightarrow> int option" where
  "read_likesCount obj k = (case js_get obj k of Own p \<Rightarrow> Some (likesCount p) | _ \<Rightarrow> None)"

definition like ::
  "storage \<Rightarrow> string \<Rightarrow> js_value \<Rightarrow> (failure + (js_value \<times> string \<times> int option)) \<times> storage" where
  "like st pid uid =
     (if js_falsy uid then (Inl (Failure 400 ''userId is required''), st)
      else if \<not> truthy (js_get (posts st) pid) then
        (Inl (Failure 404 ''post not found''), st)
      else
        (case js_get_by (users st) uid of
           None \<Rightarrow> (Inl internal_error, st)
         | Some liker \<Rightarrow>
             if \<not> truthy liker then
               (Inl (Failure 404 ''user not found''), st)
             else if list_ex (\<lambda>l. userId l = uid \<and> postId l = pid) (likes st) then
               (Inl (Failure 400 ''post already liked by this user''), st)
             else
               (let st' = st\<lparr>likes := likes st @ [\<lparr>userId = uid, postId = pid\<rparr>],
                              posts := adjust (\<lambda>p. p\<lparr>likesCount := likesCount p + 1\<rparr>) pid (posts st)\<rparr>
                in (Inr (uid, pid, read_likesCount (posts st') pid), st'))))"

definition unlike ::
  "storage \<Rightarrow> string \<Rightarrow> js_value \<Rightarrow> (failure + int option) \<times> storage" where
  "unlike st pid uid =
     (if js_falsy uid then (Inl (Failure 400 ''userId is required''), st)
      else if \<not> truthy (js_get (posts st) pid) then
        (Inl (Failure 404 ''post not found''), st)
      else
        (let index = findIndex (\<lambda>l. userId l = uid \<and> postId l = pid) (likes st) in
         if index = - 1 then (Inl (Failure 404 ''like not found''), st)
         else
           (let st' = st\<lparr>likes := splice1 index (likes st),
                          posts := adjust (\<lambda>p. p\<lparr>likesCount := max 0 (likesCount p - 1)\<rparr>) pid (posts st)\<rparr>
            in (Inr (read_likesCount (posts st') pid), st'))))"

section \<open>routes/posts.js\<close>

record post_request =
  req_authorId :: js_value
  req_content :: js_value
  req_mediaType :: js_value
  req_mediaUrl :: js_value

text \<open>
  \<^verbatim>\<open>uuidv4()\<close> and \<^verbatim>\<open>new Date()\<close> are inputs of the model: \<open>newId\<close> and \<open>now\<close>. An
  absent field is \<^const>\<open>JUndef\<close>.
\<close>

definition createPost ::
  "storage \<Rightarrow> string \<Rightarrow> int \<Rightarrow> post_request \<Rightarrow> (failure + post) \<times> storage" where
  "createPost st newId now req =
     (if js_falsy (req_authorId req) then
        (Inl (Failure 400 ''authorId is missing or does not refer to a valid user''), st)
      else
        (case js_get_by (users st) (req_authorId req) of
           None \<Rightarrow> (Inl internal_error, st)
         | Some author \<Rightarrow>
             if \<not> truthy author then
               (Inl (Failure 400 ''authorId is missing or does not refer to a valid user''), st)
             else if (case req_content req of JStr c \<Rightarrow> c = [] \<or> trim c = [] | _ \<Rightarrow> True) then
               (Inl (Failure 400 ''content is required''), st)
             else if req_mediaType req \<noteq> JUndef \<and> req_mediaType req \<noteq> JNull \<and>
                     req_mediaType req \<notin> set [JStr ''image'', JStr ''video''] then
               (Inl (Failure 400 ''mediaType must be \"image\", \"video\", or null''), st)
             else
               (let p = \<lparr>post_id = newId,
                         authorId = req_authorId req,
                         content = trim (string_of (req_content req)),
                         mediaType = or_null (req_mediaType req),
                         mediaUrl = or_null (req_mediaUrl req),
                         createdAt = now,
                         likesCount = 0\<rparr>
                in (Inr p, st\<lparr>posts := AList.update newId p (posts st)\<rparr>))))"

definition deletePost :: "storage \<Rightarrow> string \<Rightarrow> (failure + unit) \<times> storage" where
  "deletePost st pid =
     (if \<not> truthy (js_get (posts st) pid) then (Inl (Failure 404 ''post not found''), st)
      else
        (Inr (), st\<lparr>likes := filter (\<lambda>l. postId l \<noteq> pid) (likes st),
                    posts := AList.delete pid (posts st)\<rparr>))"

section \<open>routes/users.js\<close>

record user_request =
  req_username :: js_value
  req_displayName :: js_value
  req_bio :: js_value
  req_profilePicUrl :: js_value

text \<open>
  \<^verbatim>\<open>bio ? bio.trim() : ''\<close> raises for a truthy \<^verbatim>\<open>bio\<close> that is no string (it has no
  callable \<^verbatim>\<open>trim\<close>), after the tests of the names and before anything is stored.
\<close>

definition createUser ::
  "storage \<Rightarrow> string \<Rightarrow> int \<Rightarrow> user_request \<Rightarrow> (failure + user) \<times> storage" where
  "createUser st newId now req =
     (if (case req_username req of JStr n \<Rightarrow> n = [] \<or> trim n = [] | _ \<Rightarrow> True) then
        (Inl (Failure 400 ''username is required''), st)
      else if (case req_displayName req of JStr d \<Rightarrow> d = [] \<or> trim d = [] | _ \<Rightarrow> True) then
        (Inl (Failure 400 ''displayName is required''), st)
      else
        (let nameLower = toLowerCase (trim (string_of (req_username req))) in
         if list_ex (\<lambda>u. toLowerCase (username u) = nameLower) (map snd (users st)) then
           (Inl (Failure 400 ''username already taken''), st)
         else if js_truthy (req_bio req) \<and> (case req_bio req of JStr b \<Rightarrow> False | _ \<Rightarrow> True) then
           (Inl internal_error, st)
         else
           (let u = \<lparr>user_id = newId,
                     username = trim (string_of (req_username req)),
                     displayName = trim (string_of (req_displayName req)),
                     bio = (if js_truthy (req_bio req) then trim (string_of (req_bio req)) else []),
                     profilePicUrl = or_null (req_profilePicUrl req),
                     user_createdAt = now\<rparr>
            in (Inr u, st\<lparr>users := AList.update newId u (users st)\<rparr>))))"

text \<open>
  \<^verbatim>\<open>GET /api/users/:id\<close>: the spread \<^verbatim>\<open>{ ...user, followerCount, followingCount, postCount }\<close>.
  The \<^verbatim>\<open>:id\<close> of the URL is a string, and the filters compare the stored ids with it
  by \<^verbatim>\<open>===\<close>.
\<close>

record profile =
  profile_user :: "user js_prop"
  followerCount :: nat
  followingCount :: nat
  postCount :: nat

definition getUser :: "storage \<Rightarrow> string \<Rightarrow> failure + profile" where
  "getUser st i =
     (if \<not> truthy (js_get (users st) i) then Inl (Failure 404 ''user not found'')
      else Inr \<lparr>profile_user = js_get (users st) i,
                followerCount = length (filter (\<lambda>f. followeeId f = JStr i) (follows st)),
                followingCount = length (filter (\<lambda>f. followerId f = JStr i) (follows st)),
                postCount = length (filter (\<lambda>p. authorId p = JStr i) (map snd (posts st)))\<rparr>)"

text \<open>
  The lists resolve each stored id with \<^verbatim>\<open>storage.users[id]\<close>, which converts the id to
  a key, and keep the truthy results.
\<close>

definition getFollowers :: "storage \<Rightarrow> string \<Rightarrow> failure + user js_prop list" where
  "getFollowers st i =
     (if \<not> truthy (js_get (users st) i) then Inl (Failure 404 ''user not found'')
      else
        (case those (map (\<lambda>f. js_get_by (users st) (followerId f))
                       (filter (\<lambda>f. followeeId f = JStr i) (follows st))) of
           None \<Rightarrow> Inl internal_error
         | Some followers \<Rightarrow> Inr (filter truthy followers)))"

definition getFollowing :: "storage \<Rightarrow> string \<Rightarrow> failure + user js_prop list" where
  "getFollowing st i =
     (if \<not> truthy (js_get (users st) i) then Inl (Failure 404 ''user not found'')
      else
        (case those (map (\<lambda>f. js_get_by (users st) (followeeId f))
                       (filter (\<lambda>f. followerId f = JStr i) (follows st))) of
           None \<Rightarrow> Inl internal_error
         | Some following \<Rightarrow> Inr (filter truthy following)))"

subsection \<open>Suggestions\<close>

text \<open>
  A value of \<^verbatim>\<open>mutualCounts\<close> is a number, or the string that \<^verbatim>\<open>+ 1\<close> builds once the
  read \<^verbatim>\<open>mutualCounts[candidate]\<close> has found an inherited member (a function's source
  text followed by \<^verbatim>\<open>1\<close>s); \<open>Junk\<close> stands for any such string.
\<close>

datatype mutual = Count int | Junk

text \<open>\<^verbatim>\<open>(mutualCounts[candidate] || 0) + 1\<close>\<close>

fun or0_plus1 :: "mutual js_prop \<Rightarrow> mutual" where
  "or0_plus1 (Own (Count n)) = Count ((if n = 0 then 0 else n) + 1)"
| "or0_plus1 (Own Junk) = Junk"
| "or0_plus1 (Inherited k) = Junk"
| "or0_plus1 Undefined = Count 1"

text \<open>
  The comparator \<^verbatim>\<open>(a, b) => b[1] - a[1]\<close>; a difference that is \<^verbatim>\<open>NaN\<close> counts as
  \<^verbatim>\<open>0\<close> in \<^verbatim>\<open>sort\<close>.
\<close>

fun by_mutualCount :: "string \<times> mutual \<Rightarrow> string \<times> mutual \<Rightarrow> int" where
  "by_mutualCount (ka, Count x) (kb, Count y) = y - x"
| "by_mutualCount a b = 0"

text \<open>
  The inline computation of \<^verbatim>\<open>GET /api/users/:id/suggestions\<close>. A candidate is a stored
  \<^verbatim>\<open>followeeId\<close>; \<^verbatim>\<open>mutualCounts[candidate]\<close> converts it to a key, and a conversion that
  raises ends the request (the tally is \<^const>\<open>None\<close> from there on).
\<close>

definition userSuggestions ::
  "storage \<Rightarrow> string \<Rightarrow> failure + (user js_prop \<times> mutual) list" where
  "userSuggestions st uid =
     (if \<not> truthy (js_get (users st) uid) then Inl (Failure 404 ''user not found'')
      else
        (let alreadyFollowing =
               js_Set (map followeeId (filter (\<lambda>f. followerId f = JStr uid) (follows st)));
             mutualCounts =
               foldl (\<lambda>mc followee.
                        foldl (\<lambda>mc f.
                                 (case mc of
                                    None \<Rightarrow> None
                                  | Some m \<Rightarrow>
                                      (let candidate = followeeId f in
                                       if candidate = JStr uid \<or> candidate \<in> set alreadyFollowing
                                       then Some m
                                       else (case to_key candidate of
                                               None \<Rightarrow> None
                                             | Some k \<Rightarrow> Some (js_assign m k (or0_plus1 (js_get m k)))))))
                          mc (filter (\<lambda>f. followerId f = followee) (follows st)))
                 (Some []) alreadyFollowing
         in (case mutualCounts of
               None \<Rightarrow> Inl internal_error
             | Some counted \<Rightarrow>
                 (let mutualCounts' =
                        foldl (\<lambda>mc k.
                                 if k = uid \<or> JStr k \<in> set alreadyFollowing then mc
                                 else if \<not> js_in mc k then js_assign mc k (Count 0) else mc)
                          counted (map fst (users st));
                      suggestions =
                        map (\<lambda>(k, mutualCount). (js_get (users st) k, mutualCount))
                          (js_sort by_mutualCount mutualCounts')
                  in Inr suggestions))))"

section \<open>routes/suggestions.js\<close>

text \<open>\<^verbatim>\<open>computeSuggestions(userId)\<close>; \<^const>\<open>None\<close> when it raises.\<close>

definition computeSuggestions ::
  "storage \<Rightarrow> string \<Rightarrow> (user js_prop \<times> mutual) list option" where
  "computeSuggestions st uid =
     (let alreadyFollowing =
            js_Set (map followeeId (filter (\<lambda>f. followerId f = JStr uid) (follows st)));
          mutualCounts =
            foldl (\<lambda>mc followee.
                     foldl (\<lambda>mc f.
                              (case mc of
                                 None \<Rightarrow> None
                               | Some m \<Rightarrow>
                                   (let candidate = followeeId f in
                                    if candidate = JStr uid \<or> candidate \<in> set alreadyFollowing
                                    then Some m
                                    else (case to_key candidate of
                                            None \<Rightarrow> None
                                          | Some k \<Rightarrow> Some (js_assign m k (or0_plus1 (js_get m k)))))))
                       mc (filter (\<lambda>f. followerId f = followee) (follows st)))
              (Some []) alreadyFollowing
      in (case mutualCounts of
            None \<Rightarrow> None
          | Some counted \<Rightarrow>
              (let mutualCounts' =
                     foldl (\<lambda>mc k.
                              if k = uid \<or> JStr k \<in> set alreadyFollowing then mc
                              else if \<not> js_in mc k then js_assign mc k (Count 0) else mc)
                       counted (map fst (users st))
               in Some (map (\<lambda>(k, mutualCount). (js_get (users st) k, mutualCount))
                          (js_sort by_mutualCount mutualCounts')))))"

definition suggest :: "storage \<Rightarrow> string \<Rightarrow> failure + (user js_prop \<times> mutual) list" where
  "suggest st i =
     (if \<not> truthy (js_get (users st) i) then Inl (Failure 404 ''user not found'')
      else (case computeSuggestions st i of
              None \<Rightarrow> Inl internal_error
            | Some suggestions \<Rightarrow> Inr suggestions))"

section \<open>routes/feed.js\<close>



section \<open>seed.js\<close>

text \<open>
  The demo data set. Characters outside ASCII are written as their UTF-8 bytes.
  \<^verbatim>\<open>minutesAgo(n)\<close> is \<^verbatim>\<open>now - n * 60 * 1000\<close> milliseconds.
\<close>

definition minutesAgo :: "int \<Rightarrow> int \<Rightarrow> int" where
  "minutesAgo now n = now - n * 60 * 1000"

definition seed_users :: "int \<Rightarrow> user list" where
  "seed_users now =
     [\<lparr>user_id = ''user-alice-0001'', username = ''alice'', displayName = ''Alice Wonderland'',
       bio = ''Curiouser and curiouser! '' @ [CHR 0xF0, CHR 0x9F, CHR 0x90, CHR 0x87],
       profilePicUrl = JStr ''https://i.pravatar.cc/150?u=alice'',
       user_createdAt = minutesAgo now 120\<rparr>,
      \<lparr>user_id = ''user-bob-0002'', username = ''bob'', displayName = ''Bob Builder'',
       bio = ''Can we fix it? Yes we can! '' @ [CHR 0xF0, CHR 0x9F, CHR 0x94, CHR 0xA8],
       profilePicUrl = JStr ''https://i.pravatar.cc/150?u=bob'',
       user_createdAt = minutesAgo now 110\<rparr>,
      \<lparr>user_id = ''user-carol-0003'', username = ''carol'', displayName = ''Carol Danvers'',
       bio = ''Higher, further, faster. '' @ [CHR 0xF0, CHR 0x9F, CHR 0x9A, CHR 0x80],
       profilePicUrl = JStr ''https://i.pravatar.cc/150?u=carol'',
       user_createdAt = minutesAgo now 100\<rparr>,
      \<lparr>user_id = ''user-dave-0004'', username = ''dave'', displayName = ''Dave Grohl'',
       bio = ''Music is the answer '' @ [CHR 0xF0, CHR 0x9F, CHR 0x8E, CHR 0xB8],
       profilePicUrl = JStr ''https://i.pravatar.cc/150?u=dave'',
       user_createdAt = minutesAgo now 90\<rparr>,
      \<lparr>user_id = ''user-eve-0005'', username = ''eve'', displayName = ''Eve Online'',
       bio = ''Always watching the network '' @ [CHR 0xF0, CHR 0x9F, CHR 0x91, CHR 0x81, CHR 0xEF, CHR 0xB8, CHR 0x8F],
       profilePicUrl = JStr ''https://i.pravatar.cc/150?u=eve'',
       user_createdAt = minutesAgo now 80\<rparr>,
      \<lparr>user_id = ''user-frank-0006'', username = ''frank'', displayName = ''Frank Ocean'',
       bio = ''Blonde vibes only '' @ [CHR 0xF0, CHR 0x9F, CHR 0x8C, CHR 0x8A],
       profilePicUrl = JStr ''https://i.pravatar.cc/150?u=frank'',
       user_createdAt = minutesAgo now 70\<rparr>]"

definition seed_posts :: "int \<Rightarrow> post list" where
  "seed_posts now =
     [\<lparr>post_id = ''post-0001'', authorId = JStr ''user-alice-0001'',
       content = ''Just had the best cup of coffee '' @ [CHR 0xE2, CHR 0x98, CHR 0x95] @ '' '' @ [CHR 0xE2, CHR 0x80, CHR 0x94] @ '' good morning, world!'',
       mediaType = JNull, mediaUrl = JNull,
       createdAt = minutesAgo now 60, likesCount = 0\<rparr>,
      \<lparr>post_id = ''post-0002'', authorId = JStr ''user-bob-0002'',
       content = ''Finished building a bookshelf today. Proud of myself! '' @ [CHR 0xF0, CHR 0x9F, CHR 0x92, CHR 0xAA],
       mediaType = JNull, mediaUrl = JNull,
       createdAt = minutesAgo now 55, likesCount = 0\<rparr>,
      \<lparr>post_id = ''post-0003'', authorId = JStr ''user-carol-0003'',
       content = ''Flying at 30,000 feet and the view is absolutely breathtaking '' @ [CHR 0xF0, CHR 0x9F, CHR 0x8C, CHR 0xA4, CHR 0xEF, CHR 0xB8, CHR 0x8F],
       mediaType = JNull, mediaUrl = JNull,
       createdAt = minutesAgo now 50, likesCount = 0\<rparr>,
      \<lparr>post_id = ''post-0004'', authorId = JStr ''user-dave-0004'',
       content = ''Sunset jam session '' @ [CHR 0xF0, CHR 0x9F, CHR 0x8E, CHR 0xB8, CHR 0xF0, CHR 0x9F, CHR 0x8C, CHR 0x85],
       mediaType = JStr ''image'', mediaUrl = JStr ''https://picsum.photos/seed/guitar/800/600'',
       createdAt = minutesAgo now 45, likesCount = 0\<rparr>,
      \<lparr>post_id = ''post-0005'', authorId = JStr ''user-eve-0005'',
       content = ''My home lab setup '' @ [CHR 0xE2, CHR 0x80, CHR 0x94] @ '' new rack arrived! '' @ [CHR 0xF0, CHR 0x9F, CHR 0x96, CHR 0xA5, CHR 0xEF, CHR 0xB8, CHR 0x8F],
       mediaType = JStr ''image'', mediaUrl = JStr ''https://picsum.photos/seed/server/800/600'',
       createdAt = minutesAgo now 40, likesCount = 0\<rparr>,
      \<lparr>post_id = ''post-0006'', authorId = JStr ''user-frank-0006'',
       content = ''Ocean view from the studio '' @ [CHR 0xF0, CHR 0x9F, CHR 0x8C, CHR 0x8A],
       mediaType = JStr ''image'', mediaUrl = JStr ''https://picsum.photos/seed/ocean/800/600'',
       createdAt = minutesAgo now 35, likesCount = 0\<rparr>,
      \<lparr>post_id = ''post-0007'', authorId = JStr ''user-alice-0001'',
       content = ''Reading '' @ [CHR 0x22] @ ''Alice in Wonderland'' @ [CHR 0x22] @ '' for the hundredth time. Still magical '' @ [CHR 0xE2, CHR 0x9C, CHR 0xA8],
       mediaType = JNull, mediaUrl = JNull,
       createdAt = minutesAgo now 30, likesCount = 0\<rparr>,
      \<lparr>post_id = ''post-0008'', authorId = JStr ''user-bob-0002'',
       content = ''Time-lapse of the bookshelf build '' @ [CHR 0xF0, CHR 0x9F, CHR 0x8E, CHR 0xAC],
       mediaType = JStr ''video'', mediaUrl = JStr ''https://www.w3schools.com/html/mov_bbb.mp4'',
       createdAt = minutesAgo now 25, likesCount = 0\<rparr>,
      \<lparr>post_id = ''post-0009'', authorId = JStr ''user-carol-0003'',
       content = ''Back on the ground. Next mission: the fridge '' @ [CHR 0xF0, CHR 0x9F, CHR 0x8D, CHR 0x95],
       mediaType = JNull, mediaUrl = JNull,
       createdAt = minutesAgo now 10, likesCount = 0\<rparr>]"

definition followRelationships :: "follow_edge list" where
  "followRelationships =
     [\<lparr>followerId = JStr ''user-alice-0001'', followeeId = JStr ''user-bob-0002''\<rparr>,
      \<lparr>followerId = JStr ''user-alice-0001'', followeeId = JStr ''user-carol-0003''\<rparr>,
      \<lparr>followerId = JStr ''user-alice-0001'', followeeId = JStr ''user-dave-0004''\<rparr>,
      \<lparr>followerId = JStr ''user-bob-0002'', followeeId = JStr ''user-alice-0001''\<rparr>,
      \<lparr>followerId = JStr ''user-bob-0002'', followeeId = JStr ''user-carol-0003''\<rparr>,
      \<lparr>followerId = JStr ''user-carol-0003'', followeeId = JStr ''user-dave-0004''\<rparr>,
      \<lparr>followerId = JStr ''user-eve-0005'', followeeId = JStr ''user-alice-0001''\<rparr>,
      \<lparr>followerId = JStr ''user-eve-0005'', followeeId = JStr ''user-frank-0006''\<rparr>]"

definition likeRelationships :: "like_edge list" where
  "likeRelationships =
     [\<lparr>userId = JStr ''user-bob-0002'', postId = ''post-0001''\<rparr>,
      \<lparr>userId = JStr ''user-carol-0003'', postId = ''post-0001''\<rparr>,
      \<lparr>userId = JStr ''user-alice-0001'', postId = ''post-0004''\<rparr>,
      \<lparr>userId = JStr ''user-eve-0005'', postId = ''post-0004''\<rparr>,
      \<lparr>userId = JStr ''user-dave-0004'', postId = ''post-0009''\<rparr>]"

definition seed :: "storage \<Rightarrow> int \<Rightarrow> storage" where
  "seed st now =
     (let st1 = st\<lparr>users := foldl (\<lambda>obj u. AList.update (user_id u) u obj) (users st) (seed_users now)\<rparr>;
          st2 = st1\<lparr>posts := foldl (\<lambda>obj p. AList.update (post_id p) p obj) (posts st1) (seed_posts now)\<rparr>;
          st3 = st2\<lparr>follows := foldl (\<lambda>fs f. fs @ [f]) (follows st2) followRelationships\<rparr>
      in foldl (\<lambda>s l. s\<lparr>likes := likes s @ [l],
                          posts := adjust (\<lambda>p. p\<lparr>likesCount := likesCount p + 1\<rparr>) (postId l) (posts s)\<rparr>)
           st3 likeRelationships)"

section \<open>Reachable stores\<close>

text \<open>
  \<^verbatim>\<open>uuidv4()\<close> returns 36 characters with hyphens at fixed places. The id of a new post
  is taken to be one that no stored post has (a post written over another under the same
  id would start at \<^verbatim>\<open>likesCount: 0\<close> while the like edges of the old one remain); for
  the id of a new user nothing beyond its shape is assumed.
\<close>

definition uuid_shaped :: "string \<Rightarrow> bool" where
  "uuid_shaped s \<longleftrightarrow>
     length s = 36 \<and> s ! 8 = CHR ''-'' \<and> s ! 13 = CHR ''-'' \<and> s ! 18 = CHR ''-'' \<and> s ! 23 = CHR ''-''"

text \<open>\<^verbatim>\<open>SEED_IDS.users\<close> of \<^verbatim>\<open>seed.js\<close>.\<close>

definition SEED_IDS_users :: "string list" where
  "SEED_IDS_users =
     [''user-alice-0001'', ''user-bob-0002'', ''user-carol-0003'', ''user-dave-0004'',
      ''user-eve-0005'', ''user-frank-0006'']"

text \<open>
  The addresses of the arrays and objects the store holds, and what is known of the
  fields of a request body when the handler starts: they are parsed values, each array
  or object among them is a new object, different from the others and from every stored
  one.
\<close>

definition stored_addresses :: "storage \<Rightarrow> nat list" where
  "stored_addresses st =
     concat (map (\<lambda>f. address_of (followerId f) @ address_of (followeeId f)) (follows st)) @
     concat (map (\<lambda>l. address_of (userId l)) (likes st)) @
     concat (map (\<lambda>p. address_of (authorId p) @ address_of (mediaUrl p)) (map snd (posts st))) @
     concat (map (\<lambda>u. address_of (profilePicUrl u)) (map snd (users st)))"

definition parsed_fresh :: "storage \<Rightarrow> js_value list \<Rightarrow> bool" where
  "parsed_fresh st vs \<longleftrightarrow>
     list_all wf_value vs \<and>
     distinct (concat (map address_of vs)) \<and>
     set (concat (map address_of vs)) \<inter> set (stored_addresses st) = {}"

text \<open>
  The module starts empty; \<^verbatim>\<open>server.js\<close> calls \<^verbatim>\<open>seed()\<close> once at startup when run as
  the main module. Every mutating request is a step, whatever its body holds and whatever
  it answers; the read-only routes do not change the store.
\<close>

inductive reach :: "storage \<Rightarrow> bool" where
  initial: "reach empty_storage"
| seeded: "reach (seed empty_storage now)"
| resetAll: "reach st \<Longrightarrow> reach (reset st)"
| createUser:
    "reach st \<Longrightarrow> uuid_shaped newId \<Longrightarrow>
     parsed_fresh st [req_username req, req_displayName req, req_bio req, req_profilePicUrl req] \<Longrightarrow>
     reach (snd (createUser st newId now req))"
| createPost:
    "reach st \<Longrightarrow> uuid_shaped newId \<Longrightarrow> newId \<notin> fst ` set (posts st) \<Longrightarrow>
     parsed_fresh st [req_authorId preq, req_content preq, req_mediaType preq, req_mediaUrl preq] \<Longrightarrow>
     reach (snd (createPost st newId now preq))"
| deletePost: "reach st \<Longrightarrow> reach (snd (deletePost st pid))"
| follow: "reach st \<Longrightarrow> parsed_fresh st [a, b] \<Longrightarrow> reach (snd (follow st a b))"
| unfollow: "reach st \<Longrightarrow> parsed_fresh st [a, b] \<Longrightarrow> reach (snd (unfollow st a b))"
| like: "reach st \<Longrightarrow> parsed_fresh st [uid] \<Longrightarrow> reach (snd (like st pid uid))"
| unlike: "reach st \<Longrightarrow> parsed_fresh st [uid] \<Longrightarrow> reach (snd (unlike st pid uid))"

section \<open>Invariants of the reachable stores\<close>

text \<open>
  The first five are kept by every route on every input. \<open>heap_ok\<close> also needs that the
  arrays and objects of a body are new ones: a stored \<^verbatim>\<open>followeeId\<close> is a parsed value,
  and no array or object is both the \<^verbatim>\<open>followeeId\<close> of an edge and the \<^verbatim>\<open>authorId\<close> of a
  post.
\<close>

definition users_ok :: "storage \<Rightarrow> bool" where
  "users_ok st \<longleftrightarrow>
     distinct (map fst (users st)) \<and>
     (\<forall>(k, u)\<in>set (users st). user_id u = k \<and> (uuid_shaped k \<or> k \<in> set SEED_IDS_users))"

definition posts_ok :: "storage \<Rightarrow> bool" where
  "posts_ok st \<longleftrightarrow>
     distinct (map fst (posts st)) \<and>
     (\<forall>(k, p)\<in>set (posts st). post_id p = k \<and> to_key (authorId p) \<noteq> None)"

definition follows_ok :: "storage \<Rightarrow> bool" where
  "follows_ok st \<longleftrightarrow>
     distinct (follows st) \<and>
     (\<forall>f\<in>set (follows st).
        followerId f \<noteq> followeeId f \<and> js_truthy (followerId f) \<and> js_truthy (followeeId f) \<and>
        (\<exists>k. to_key (followerId f) = Some k \<and> truthy (js_get (users st) k)) \<and>
        (\<exists>k. to_key (followeeId f) = Some k \<and> truthy (js_get (users st) k)))"

definition likes_ok :: "storage \<Rightarrow> bool" where
  "likes_ok st \<longleftrightarrow>
     distinct (likes st) \<and>
     (\<forall>l\<in>set (likes st). js_truthy (userId l) \<and> truthy (js_get (posts st) (postId l)))"

definition counts_ok :: "storage \<Rightarrow> bool" where
  "counts_ok st \<longleftrightarrow>
     (\<forall>(k, p)\<in>set (posts st). likesCount p = int (length (filter (\<lambda>l. postId l = k) (likes st))))"

definition inv :: "storage \<Rightarrow> bool" where
  "inv st \<longleftrightarrow> users_ok st \<and> posts_ok st \<and> follows_ok st \<and> likes_ok st \<and> counts_ok st"

definition post_authors :: "storage \<Rightarrow> js_value list" where
  "post_authors st = map (\<lambda>e. authorId (snd e)) (posts st)"


section \<open>Notions used in the statements\<close>

text \<open>
  The ids a user follows, as every route computes them before \<^verbatim>\<open>new Set\<close>:
  \<^verbatim>\<open>storage.follows.filter((f) => f.followerId === userId).map((f) => f.followeeId)\<close>.
\<close>

definition followeesOf :: "storage \<Rightarrow> string \<Rightarrow> js_value list" where
  "followeesOf st uid = map followeeId (filter (\<lambda>f. followerId f = JStr uid) (follows st))"

text \<open>
  The candidates in the order the nested \<^verbatim>\<open>forEach\<close> of the suggestion routes visits
  them (after the test that skips the user and the already followed), the tally of their
  keys, and the value of \<^verbatim>\<open>mutualCounts\<close> when it is sorted.
\<close>

definition candidates :: "storage \<Rightarrow> string \<Rightarrow> js_value list" where
  "candidates st uid =
     concat (map (\<lambda>followee.
                    filter (\<lambda>c. \<not> (c = JStr uid \<or> c \<in> set (js_Set (followeesOf st uid))))
                      (map followeeId (filter (\<lambda>f. followerId f = followee) (follows st))))
               (js_Set (followeesOf st uid)))"

definition tally :: "string list \<Rightarrow> mutual js_object" where
  "tally ks = foldl (\<lambda>mc x. js_assign mc x (or0_plus1 (js_get mc x))) [] ks"

definition mutualCounts :: "storage \<Rightarrow> string \<Rightarrow> string list \<Rightarrow> mutual js_object" where
  "mutualCounts st uid ks =
     foldl (\<lambda>mc k. if k = uid \<or> JStr k \<in> set (js_Set (followeesOf st uid)) then mc
                     else if \<not> js_in mc k then js_assign mc k (Count 0) else mc)
       (tally ks) (map fst (users st))"

text \<open>
  The denormalised counter agrees with the like edges: every stored post's
  \<^verbatim>\<open>likesCount\<close> is the number of entries of \<^verbatim>\<open>storage.likes\<close> whose \<^verbatim>\<open>postId\<close> is
  the post's \<^verbatim>\<open>id\<close>.
\<close>

definition likesCount_consistent :: "storage \<Rightarrow> bool" where
  "likesCount_consistent st \<longleftrightarrow>
     (\<forall>p\<in>snd ` set (posts st).
        likesCount p = int (length (filter (\<lambda>l. postId l = post_id p) (likes st))))"

text \<open>A sequence of like and unlike requests (post id, user id), run in order.\<close>

datatype like_call = Like string js_value | Unlike string js_value

fun run_calls :: "storage \<Rightarrow> like_call list \<Rightarrow> storage" where
  "run_calls st [] = st"
| "run_calls st (Like pid uid # cs) = run_calls (snd (like st pid uid)) cs"
| "run_calls st (Unlike pid uid # cs) = run_calls (snd (unlike st pid uid)) cs"

text \<open>
  Stores used as examples. Three users A, B and C are registered on the empty store; in
  \<open>scenario_ABC\<close> A follows B and B follows C, every id sent as a string. In
  \<open>scenario_array\<close> B follows C with the \<^verbatim>\<open>followeeId\<close> sent as the one-element array
  \<^verbatim>\<open>["<id of C>"]\<close>; after that either A follows C, or B sends the same body once more
  (a new array). The others start from the seeded store: a follow whose \<^verbatim>\<open>followeeId\<close> is
  the name of an inherited member, alice following \<^verbatim>\<open>["user-alice-0001"]\<close>, and alice
  liking a post under \<^verbatim>\<open>["user-alice-0001"]\<close>.
\<close>

definition user_A :: string where "user_A = ''0a000000-0000-4000-8000-000000000001''"

definition user_B :: string where "user_B = ''0b000000-0000-4000-8000-000000000002''"

definition user_C :: string where "user_C = ''0c000000-0000-4000-8000-000000000003''"

definition registered_ABC :: storage where
  "registered_ABC =
     snd (createUser
       (snd (createUser
         (snd (createUser empty_storage user_A 1
            \<lparr>req_username = JStr ''a'', req_displayName = JStr ''A'', req_bio = JUndef, req_profilePicUrl = JUndef\<rparr>))
         user_B 2
         \<lparr>req_username = JStr ''b'', req_displayName = JStr ''B'', req_bio = JUndef, req_profilePicUrl = JUndef\<rparr>))
       user_C 3
       \<lparr>req_username = JStr ''c'', req_displayName = JStr ''C'', req_bio = JUndef, req_profilePicUrl = JUndef\<rparr>)"

definition scenario_ABC :: storage where
  "scenario_ABC =
     snd (follow (snd (follow registered_ABC (JStr user_A) (JStr user_B))) (JStr user_B) (JStr user_C))"

definition scenario_array :: storage where
  "scenario_array =
     snd (follow (snd (follow registered_ABC (JStr user_A) (JStr user_B)))
            (JStr user_B) (JArr 1 [JStr user_C]))"

definition scenario_array_direct :: storage where
  "scenario_array_direct = snd (follow scenario_array (JStr user_A) (JStr user_C))"

definition scenario_array_twice :: storage where
  "scenario_array_twice = snd (follow scenario_array (JStr user_B) (JArr 2 [JStr user_C]))"

definition seeded_plus_valueOf :: storage where
  "seeded_plus_valueOf =
     snd (follow (seed empty_storage 0) (JStr ''user-dave-0004'') (JStr ''valueOf''))"

definition seeded_self_follow :: storage where
  "seeded_self_follow =
     snd (follow (seed empty_storage 0) (JStr ''user-alice-0001'') (JArr 1 [JStr ''user-alice-0001'']))"

definition seeded_array_like :: storage where
  "seeded_array_like =
     snd (like (seed empty_storage 0) ''post-0002'' (JArr 1 [JStr ''user-alice-0001'']))"

section \<open>Lemmas about the JavaScript helpers\<close>

lemma js_falsy_iff [simp]: "js_falsy v \<longleftrightarrow> \<not> js_truthy v"
  by (cases v) auto

lemma js_get_Own_iff: "js_get obj k = Own v \<longleftrightarrow> map_of obj k = Some v"
  by (simp add: js_get_def split: option.splits)

lemma truthy_js_get: "truthy (js_get obj k) \<longleftrightarrow> k \<in> fst ` set obj \<or> k \<in> set object_prototype_keys"
  by (auto simp: js_get_def map_of_eq_None_iff split: option.splits dest: map_of_SomeD intro: rev_image_eqI)

lemma js_get_update: "js_get (AList.update k v obj) k' = (if k' = k then Own v else js_get obj k')"
  by (simp add: js_get_def update_conv')

lemma js_get_delete: "k' \<noteq> k \<Longrightarrow> js_get (AList.delete k obj) k' = js_get obj k'"
  by (simp add: js_get_def delete_conv')

lemma map_fst_adjust: "map fst (adjust f k obj) = map fst obj"
  by (induction obj) (auto simp: adjust_def)

lemma truthy_adjust: "truthy (js_get (adjust f k obj) k') = truthy (js_get obj k')"
  by (metis truthy_js_get map_fst_adjust set_map)

lemma uuid_shaped_nonempty: "uuid_shaped s \<Longrightarrow> s \<noteq> []"
  by (auto simp: uuid_shaped_def)

lemma uuid_shaped_not_inherited: "uuid_shaped s \<Longrightarrow> s \<notin> set object_prototype_keys"
  by (auto simp: uuid_shaped_def object_prototype_keys_def)

lemma findIndex_ge: "- 1 \<le> findIndex P xs"
  by (induction xs) (auto simp: Let_def)

lemma findIndex_none: "findIndex P xs = - 1 \<longleftrightarrow> \<not> list_ex P xs"
proof (induction xs)
  case Nil
  show ?case by simp
next
  case (Cons x xs)
  have "- 1 \<le> findIndex P xs" by (rule findIndex_ge)
  with Cons show ?case by (auto simp: Let_def)
qed

lemma splice1_findIndex:
  "findIndex P xs \<noteq> - 1 \<Longrightarrow>
   \<exists>ys x zs. xs = ys @ x # zs \<and> P x \<and> (\<forall>y\<in>set ys. \<not> P y) \<and>
     splice1 (findIndex P xs) xs = ys @ zs"
proof (induction xs)
  case Nil
  then show ?case by simp
next
  case (Cons a xs)
  show ?case
  proof (cases "P a")
    case True
    have "a # xs = [] @ a # xs \<and> P a \<and> (\<forall>y\<in>set []. \<not> P y) \<and>
      splice1 (findIndex P (a # xs)) (a # xs) = [] @ xs"
      using True by (simp add: splice1_def)
    then show ?thesis by blast
  next
    case False
    with Cons.prems have ne: "findIndex P xs \<noteq> - 1" by (auto simp: Let_def split: if_splits)
    from Cons.IH[OF ne] obtain ys x zs where
      d: "xs = ys @ x # zs" "P x" "\<forall>y\<in>set ys. \<not> P y" "splice1 (findIndex P xs) xs = ys @ zs"
      by blast
    have ge: "0 \<le> findIndex P xs" using ne findIndex_ge[of P xs] by linarith
    have "splice1 (findIndex P (a # xs)) (a # xs) = a # splice1 (findIndex P xs) xs"
      using False ne ge by (simp add: splice1_def Let_def nat_add_distrib)
    with d False have "a # xs = (a # ys) @ x # zs \<and> P x \<and> (\<forall>y\<in>set (a # ys). \<not> P y) \<and>
      splice1 (findIndex P (a # xs)) (a # xs) = (a # ys) @ zs"
      by simp
    then show ?thesis by blast
  qed
qed



lemma user_key_clean:
  "uuid_shaped k \<or> k \<in> set SEED_IDS_users \<Longrightarrow> k \<noteq> [] \<and> k \<notin> set object_prototype_keys"
  by (auto simp: uuid_shaped_def SEED_IDS_users_def object_prototype_keys_def)

lemma users_ok_key:
  "users_ok st \<Longrightarrow> k \<in> set (map fst (users st)) \<Longrightarrow> uuid_shaped k \<or> k \<in> set SEED_IDS_users"
  by (auto simp: users_ok_def)

lemma js_get_by_Some:
  "js_get_by obj v = Some p \<longleftrightarrow> (\<exists>k. to_key v = Some k \<and> p = js_get obj k)"
  by (cases "to_key v") (auto simp: js_get_by_def)

lemma js_get_by_JStr [simp]: "js_get_by obj (JStr s) = Some (js_get obj s)"
  by (simp add: js_get_by_def)

lemma parsed_fresh_plain:
  "list_all (\<lambda>v. wf_value v \<and> address_of v = []) vs \<Longrightarrow> parsed_fresh st vs"
  by (induction vs) (auto simp: parsed_fresh_def)

lemma parsed_fresh_strings [simp]:
  "parsed_fresh st [JStr a, JStr b]" "parsed_fresh st [JStr a]"
  by (simp_all add: parsed_fresh_def)

section \<open>Every reachable store satisfies the invariants\<close>

lemma edge_eq: "(f = \<lparr>followerId = a, followeeId = b\<rparr>) \<longleftrightarrow> followerId f = a \<and> followeeId f = b"
  by (cases f) auto

lemma like_eq: "(l = \<lparr>userId = u, postId = p\<rparr>) \<longleftrightarrow> userId l = u \<and> postId l = p"
  by (cases l) auto

lemma list_ex_edge: "list_ex (\<lambda>f. followerId f = a \<and> followeeId f = b) fs \<longleftrightarrow> \<lparr>followerId = a, followeeId = b\<rparr> \<in> set fs"
  by (auto simp: list_ex_iff edge_eq[symmetric])

lemma list_ex_like: "list_ex (\<lambda>l. userId l = u \<and> postId l = p) ls \<longleftrightarrow> \<lparr>userId = u, postId = p\<rparr> \<in> set ls"
  by (auto simp: list_ex_iff like_eq[symmetric])

lemma update_fresh: "k \<notin> fst ` set al \<Longrightarrow> AList.update k v al = al @ [(k, v)]"
  by (induction al) auto

lemma set_adjust: "set (adjust f k obj) = (\<lambda>(k', p). if k' = k then (k', f p) else (k', p)) ` set obj"
  by (simp add: adjust_def)

lemma in_adjustD:
  "(k, q) \<in> set (adjust f pid obj) \<Longrightarrow> \<exists>p. (k, p) \<in> set obj \<and> q = (if k = pid then f p else p)"
  by (auto simp: set_adjust split: if_splits)

lemma counts_okD:
  "counts_ok st \<Longrightarrow> (k, p) \<in> set (posts st) \<Longrightarrow>
   likesCount p = int (length (filter (\<lambda>l. postId l = k) (likes st)))"
  by (auto simp: counts_ok_def)

text \<open>What each mutating route does to the store: nothing, or its one change.\<close>

lemma follow_result:
  "snd (follow st a b) = st \<or>
   (snd (follow st a b) = st\<lparr>follows := follows st @ [\<lparr>followerId = a, followeeId = b\<rparr>]\<rparr> \<and>
    fst (follow st a b) = Inr \<lparr>followerId = a, followeeId = b\<rparr> \<and>
    js_truthy a \<and> js_truthy b \<and> a \<noteq> b \<and>
    (\<exists>k. to_key a = Some k \<and> truthy (js_get (users st) k)) \<and>
    (\<exists>k. to_key b = Some k \<and> truthy (js_get (users st) k)) \<and>
    \<lparr>followerId = a, followeeId = b\<rparr> \<notin> set (follows st))"
  by (auto simp: follow_def list_ex_edge js_get_by_def split: option.splits)


lemma follow_succeeded:
  "follow st a b = (Inr e, st') \<Longrightarrow>
   st' = st\<lparr>follows := follows st @ [\<lparr>followerId = a, followeeId = b\<rparr>]\<rparr> \<and>
   e = \<lparr>followerId = a, followeeId = b\<rparr>"
  by (auto simp: follow_def split: option.splits if_splits)

lemma unfollow_result:
  "snd (unfollow st a b) = st \<or>
   (\<exists>ys x zs. follows st = ys @ x # zs \<and> followerId x = a \<and> followeeId x = b \<and>
      snd (unfollow st a b) = st\<lparr>follows := ys @ zs\<rparr>)"
proof (cases "\<not> js_truthy a \<or> \<not> js_truthy b \<or>
    findIndex (\<lambda>f. followerId f = a \<and> followeeId f = b) (follows st) = - 1")
  case True
  then have "snd (unfollow st a b) = st" by (auto simp: unfollow_def Let_def)
  then show ?thesis by simp
next
  case False
  then have ne: "findIndex (\<lambda>f. followerId f = a \<and> followeeId f = b) (follows st) \<noteq> - 1" by simp
  from splice1_findIndex[OF ne] obtain ys x zs where
    d: "follows st = ys @ x # zs" "followerId x = a \<and> followeeId x = b"
       "splice1 (findIndex (\<lambda>f. followerId f = a \<and> followeeId f = b) (follows st)) (follows st) = ys @ zs"
    by blast
  have "snd (unfollow st a b) = st\<lparr>follows := ys @ zs\<rparr>"
    using False d(3) by (auto simp: unfollow_def Let_def)
  with d(1,2) show ?thesis by blast
qed


lemma like_result:
  "snd (like st pid uid) = st \<or>
   (snd (like st pid uid) =
      st\<lparr>likes := likes st @ [\<lparr>userId = uid, postId = pid\<rparr>],
         posts := adjust (\<lambda>p. p\<lparr>likesCount := likesCount p + 1\<rparr>) pid (posts st)\<rparr> \<and>
    js_truthy uid \<and> truthy (js_get (posts st) pid) \<and>
    (\<exists>k. to_key uid = Some k \<and> truthy (js_get (users st) k)) \<and>
    \<lparr>userId = uid, postId = pid\<rparr> \<notin> set (likes st))"
  by (auto simp: like_def Let_def list_ex_like js_get_by_def split: option.splits)

lemma unlike_result:
  "snd (unlike st pid uid) = st \<or>
   (\<exists>ys x zs. likes st = ys @ x # zs \<and> userId x = uid \<and> postId x = pid \<and>
      snd (unlike st pid uid) =
        st\<lparr>likes := ys @ zs,
           posts := adjust (\<lambda>p. p\<lparr>likesCount := max 0 (likesCount p - 1)\<rparr>) pid (posts st)\<rparr>)"
proof (cases "\<not> js_truthy uid \<or> \<not> truthy (js_get (posts st) pid) \<or>
    findIndex (\<lambda>l. userId l = uid \<and> postId l = pid) (likes st) = - 1")
  case True
  then have "snd (unlike st pid uid) = st" by (auto simp: unlike_def Let_def)
  then show ?thesis by simp
next
  case False
  let ?P = "\<lambda>l. userId l = uid \<and> postId l = pid"
  from False have ne: "findIndex ?P (likes st) \<noteq> - 1" by simp
  from splice1_findIndex[OF ne] obtain ys x zs where
    d: "likes st = ys @ x # zs" "?P x" "splice1 (findIndex ?P (likes st)) (likes st) = ys @ zs"
    by blast
  have "snd (unlike st pid uid) =
        st\<lparr>likes := ys @ zs,
           posts := adjust (\<lambda>p. p\<lparr>likesCount := max 0 (likesCount p - 1)\<rparr>) pid (posts st)\<rparr>"
    using False d(3) by (auto simp: unlike_def Let_def)
  with d(1,2) show ?thesis by blast
qed

lemma deletePost_result:
  "snd (deletePost st pid) = st \<or>
   snd (deletePost st pid) =
     st\<lparr>likes := filter (\<lambda>l. postId l \<noteq> pid) (likes st), posts := AList.delete pid (posts st)\<rparr>"
  by (simp add: deletePost_def)

lemma createPost_result:
  "snd (createPost st newId now req) = st \<or>
   (\<exists>p. snd (createPost st newId now req) = st\<lparr>posts := AList.update newId p (posts st)\<rparr> \<and>
      post_id p = newId \<and> likesCount p = 0 \<and> authorId p = req_authorId req \<and>
      to_key (authorId p) \<noteq> None)"
  by (auto simp: createPost_def Let_def js_get_by_def split: option.splits)

lemma createUser_result:
  "snd (createUser st newId now req) = st \<or>
   (\<exists>u. snd (createUser st newId now req) = st\<lparr>users := AList.update newId u (users st)\<rparr> \<and>
      user_id u = newId)"
  by (auto simp: createUser_def Let_def)

lemma foldl_snoc: "foldl (\<lambda>fs f. fs @ [f]) a xs = a @ xs"
  by (induction xs arbitrary: a) auto

lemma foldl_update_fresh:
  "distinct (map fst acc @ map key xs) \<Longrightarrow>
   foldl (\<lambda>obj x. AList.update (key x) x obj) acc xs = acc @ map (\<lambda>x. (key x, x)) xs"
proof (induction xs arbitrary: acc)
  case Nil
  show ?case by simp
next
  case (Cons x xs)
  have "key x \<notin> fst ` set acc" using Cons.prems by auto
  then have u: "AList.update (key x) x acc = acc @ [(key x, x)]" by (rule update_fresh)
  have "distinct (map fst (acc @ [(key x, x)]) @ map key xs)" using Cons.prems by auto
  from Cons.IH[OF this] u show ?case by simp
qed

lemma seed_loop:
  "users (foldl (\<lambda>s l. s\<lparr>likes := likes s @ [l], posts := adjust f (postId l) (posts s)\<rparr>) s ls) = users s"
  "follows (foldl (\<lambda>s l. s\<lparr>likes := likes s @ [l], posts := adjust f (postId l) (posts s)\<rparr>) s ls) = follows s"
  "likes (foldl (\<lambda>s l. s\<lparr>likes := likes s @ [l], posts := adjust f (postId l) (posts s)\<rparr>) s ls) = likes s @ ls"
  "map fst (posts (foldl (\<lambda>s l. s\<lparr>likes := likes s @ [l], posts := adjust f (postId l) (posts s)\<rparr>) s ls)) = map fst (posts s)"
  by (induction ls arbitrary: s) (auto simp: map_fst_adjust)

lemma seed_user_ids:
  "map user_id (seed_users now) =
     [''user-alice-0001'', ''user-bob-0002'', ''user-carol-0003'', ''user-dave-0004'',
      ''user-eve-0005'', ''user-frank-0006'']"
  by (simp add: seed_users_def)

lemma seed_post_ids:
  "map post_id (seed_posts now) =
     [''post-0001'', ''post-0002'', ''post-0003'', ''post-0004'', ''post-0005'',
      ''post-0006'', ''post-0007'', ''post-0008'', ''post-0009'']"
  by (simp add: seed_posts_def)

lemma users_seed: "users (seed empty_storage now) = map (\<lambda>u. (user_id u, u)) (seed_users now)"
proof -
  have "distinct (map fst [] @ map user_id (seed_users now))"
    by (simp add: seed_user_ids)
  from foldl_update_fresh[OF this] show ?thesis
    by (simp add: seed_def Let_def seed_loop empty_storage_def)
qed

lemma user_keys_seed:
  "map fst (users (seed empty_storage now)) =
     [''user-alice-0001'', ''user-bob-0002'', ''user-carol-0003'', ''user-dave-0004'',
      ''user-eve-0005'', ''user-frank-0006'']"
  by (simp add: users_seed o_def seed_user_ids)

lemma follows_seed: "follows (seed empty_storage now) = followRelationships"
  by (simp add: seed_def Let_def seed_loop foldl_snoc empty_storage_def)

lemma likes_seed: "likes (seed empty_storage now) = likeRelationships"
  by (simp add: seed_def Let_def seed_loop foldl_snoc empty_storage_def)

lemma post_keys_seed:
  "map fst (posts (seed empty_storage now)) =
     [''post-0001'', ''post-0002'', ''post-0003'', ''post-0004'', ''post-0005'',
      ''post-0006'', ''post-0007'', ''post-0008'', ''post-0009'']"
proof -
  have "distinct (map fst [] @ map post_id (seed_posts now))"
    by (simp add: seed_post_ids)
  from foldl_update_fresh[OF this] show ?thesis
    by (simp add: seed_def Let_def seed_loop empty_storage_def o_def seed_post_ids)
qed


lemma counts_ok_push_like:
  assumes "counts_ok s"
  shows "counts_ok (s\<lparr>likes := likes s @ [l],
            posts := adjust (\<lambda>p. p\<lparr>likesCount := likesCount p + 1\<rparr>) (postId l) (posts s)\<rparr>)"
  unfolding counts_ok_def
proof (intro ballI, clarify)
  let ?s = "s\<lparr>likes := likes s @ [l],
            posts := adjust (\<lambda>p. p\<lparr>likesCount := likesCount p + 1\<rparr>) (postId l) (posts s)\<rparr>"
  fix k q assume "(k, q) \<in> set (posts ?s)"
  then obtain p where p: "(k, p) \<in> set (posts s)"
    "q = (if k = postId l then p\<lparr>likesCount := likesCount p + 1\<rparr> else p)"
    by (auto dest: in_adjustD)
  from assms p(1) have "likesCount p = int (length (filter (\<lambda>l. postId l = k) (likes s)))"
    by (simp add: counts_okD)
  with p(2) show "likesCount q = int (length (filter (\<lambda>l. postId l = k) (likes ?s)))"
    by auto
qed

lemma post_ids_adjust:
  "(\<forall>(k, p)\<in>set obj. post_id p = k) \<Longrightarrow> (\<And>p. post_id (f p) = post_id p) \<Longrightarrow>
   (\<forall>(k, p)\<in>set (adjust f pid obj). post_id p = k)"
  by (auto simp: set_adjust split: if_splits)

lemma seed_loop_inv:
  assumes "counts_ok s" "\<forall>(k, p)\<in>set (posts s). post_id p = k"
  shows "counts_ok (foldl (\<lambda>s l. s\<lparr>likes := likes s @ [l],
            posts := adjust (\<lambda>p. p\<lparr>likesCount := likesCount p + 1\<rparr>) (postId l) (posts s)\<rparr>) s ls) \<and>
         (\<forall>(k, p)\<in>set (posts (foldl (\<lambda>s l. s\<lparr>likes := likes s @ [l],
            posts := adjust (\<lambda>p. p\<lparr>likesCount := likesCount p + 1\<rparr>) (postId l) (posts s)\<rparr>) s ls)).
            post_id p = k)"
  using assms
proof (induction ls arbitrary: s)
  case Nil
  then show ?case by simp
next
  case (Cons l ls)
  let ?s = "s\<lparr>likes := likes s @ [l],
            posts := adjust (\<lambda>p. p\<lparr>likesCount := likesCount p + 1\<rparr>) (postId l) (posts s)\<rparr>"
  have 1: "counts_ok ?s" using Cons.prems(1) by (rule counts_ok_push_like)
  have 2: "\<forall>(k, p)\<in>set (posts ?s). post_id p = k"
    using post_ids_adjust[OF Cons.prems(2), of "\<lambda>p. p\<lparr>likesCount := likesCount p + 1\<rparr>" "postId l"]
    by simp
  from Cons.IH[OF 1 2] show ?case by simp
qed

lemma seed_eq_loop:
  "seed empty_storage now =
     foldl (\<lambda>s l. s\<lparr>likes := likes s @ [l],
            posts := adjust (\<lambda>p. p\<lparr>likesCount := likesCount p + 1\<rparr>) (postId l) (posts s)\<rparr>)
       (empty_storage\<lparr>users := foldl (\<lambda>obj u. AList.update (user_id u) u obj) (users empty_storage) (seed_users now),
          posts := map (\<lambda>p. (post_id p, p)) (seed_posts now),
          follows := followRelationships\<rparr>)
       likeRelationships"
proof -
  have pst: "foldl (\<lambda>obj p. AList.update (post_id p) p obj) [] (seed_posts now)
      = map (\<lambda>p. (post_id p, p)) (seed_posts now)"
    using foldl_update_fresh[of "[]" post_id "seed_posts now"] by (simp add: seed_post_ids)
  show ?thesis by (simp add: seed_def Let_def empty_storage_def pst foldl_snoc)
qed

lemma authors_adjust:
  "map (\<lambda>e. authorId (snd e)) (adjust (\<lambda>p. p\<lparr>likesCount := g p\<rparr>) k obj) =
   map (\<lambda>e. authorId (snd e)) obj"
  by (induction obj) (auto simp: adjust_def)

lemma seed_loop_authors:
  "post_authors (foldl (\<lambda>s l. s\<lparr>likes := likes s @ [l],
       posts := adjust (\<lambda>p. p\<lparr>likesCount := likesCount p + 1\<rparr>) (postId l) (posts s)\<rparr>) s ls)
   = post_authors s"
  by (induction ls arbitrary: s) (simp_all add: post_authors_def authors_adjust)

lemma authors_seed: "set (post_authors (seed empty_storage now)) \<subseteq> JStr ` set SEED_IDS_users"
  unfolding seed_eq_loop seed_loop_authors
  by (simp add: post_authors_def seed_posts_def SEED_IDS_users_def)

lemma inv_seed: "inv (seed empty_storage now)"
  unfolding inv_def
proof (intro conjI)
  show "users_ok (seed empty_storage now)"
    unfolding users_ok_def
  proof (intro conjI ballI, goal_cases)
    case 1
    show ?case by (simp add: user_keys_seed)
  next
    case (2 x)
    then have "fst x \<in> set (map fst (users (seed empty_storage now)))" by simp
    then have "fst x \<in> set SEED_IDS_users"
      unfolding user_keys_seed by (simp add: SEED_IDS_users_def)
    moreover from 2 have "user_id (snd x) = fst x" by (auto simp: users_seed)
    ultimately show ?case by (cases x) simp
  qed
  let ?st2 = "empty_storage\<lparr>users := foldl (\<lambda>obj u. AList.update (user_id u) u obj) (users empty_storage) (seed_users now),
       posts := map (\<lambda>p. (post_id p, p)) (seed_posts now),
       follows := followRelationships\<rparr>"
  have c0: "counts_ok ?st2"
    by (simp add: counts_ok_def empty_storage_def seed_posts_def)
  have p0: "\<forall>(k, p)\<in>set (posts ?st2). post_id p = k"
    by auto
  from seed_loop_inv[OF c0 p0, of likeRelationships]
  have c: "counts_ok (seed empty_storage now)"
    and p: "\<forall>(k, p)\<in>set (posts (seed empty_storage now)). post_id p = k"
    unfolding seed_eq_loop by blast+
  show "counts_ok (seed empty_storage now)" by (rule c)
  have ax: "to_key x \<noteq> None" if "x \<in> set (post_authors (seed empty_storage now))" for x
    using that authors_seed[of now] by auto
  have a: "\<forall>(k, p)\<in>set (posts (seed empty_storage now)). to_key (authorId p) \<noteq> None"
  proof (intro ballI)
    fix e assume "e \<in> set (posts (seed empty_storage now))"
    then have "authorId (snd e) \<in> set (post_authors (seed empty_storage now))"
      by (simp add: post_authors_def)
    from ax[OF this] show "case e of (k, p) \<Rightarrow> to_key (authorId p) \<noteq> None"
      by (cases e) simp
  qed
  show "posts_ok (seed empty_storage now)"
    unfolding posts_ok_def using p a by (auto simp: post_keys_seed)
  show "follows_ok (seed empty_storage now)"
    by (simp add: follows_ok_def follows_seed followRelationships_def truthy_js_get
        set_map[symmetric] user_keys_seed del: set_map)
  show "likes_ok (seed empty_storage now)"
    by (simp add: likes_ok_def likes_seed likeRelationships_def truthy_js_get
        set_map[symmetric] post_keys_seed del: set_map)
qed

lemma set_alist_update: "set (AList.update k v al) \<subseteq> insert (k, v) (set al)"
  by (induction al) auto

lemma inv_empty: "inv empty_storage"
  by (simp add: inv_def users_ok_def posts_ok_def follows_ok_def likes_ok_def counts_ok_def empty_storage_def)

lemma inv_reset: "inv (reset st)"
  by (simp add: inv_def users_ok_def posts_ok_def follows_ok_def likes_ok_def counts_ok_def reset_def)

lemma inv_follow: assumes "inv st" shows "inv (snd (follow st a b))"
proof -
  from follow_result[of st a b] show ?thesis
  proof
    assume "snd (follow st a b) = st"
    with assms show ?thesis by simp
  next
    assume h: "snd (follow st a b) = st\<lparr>follows := follows st @ [\<lparr>followerId = a, followeeId = b\<rparr>]\<rparr> \<and>
      fst (follow st a b) = Inr \<lparr>followerId = a, followeeId = b\<rparr> \<and>
      js_truthy a \<and> js_truthy b \<and> a \<noteq> b \<and>
      (\<exists>k. to_key a = Some k \<and> truthy (js_get (users st) k)) \<and>
      (\<exists>k. to_key b = Some k \<and> truthy (js_get (users st) k)) \<and>
      \<lparr>followerId = a, followeeId = b\<rparr> \<notin> set (follows st)"
    let ?st' = "st\<lparr>follows := follows st @ [\<lparr>followerId = a, followeeId = b\<rparr>]\<rparr>"
    have "follows_ok ?st'"
      using assms h by (auto simp: inv_def follows_ok_def)
    moreover have "users_ok ?st'" "posts_ok ?st'" "likes_ok ?st'" "counts_ok ?st'"
      using assms by (auto simp: inv_def users_ok_def posts_ok_def likes_ok_def counts_ok_def)
    ultimately show ?thesis using h by (simp add: inv_def)
  qed
qed

lemma inv_unfollow: assumes "inv st" shows "inv (snd (unfollow st a b))"
proof -
  from unfollow_result[of st a b] show ?thesis
  proof
    assume "snd (unfollow st a b) = st"
    with assms show ?thesis by simp
  next
    assume "\<exists>ys x zs. follows st = ys @ x # zs \<and> followerId x = a \<and> followeeId x = b \<and>
      snd (unfollow st a b) = st\<lparr>follows := ys @ zs\<rparr>"
    then obtain ys x zs where d: "follows st = ys @ x # zs"
      and eq: "snd (unfollow st a b) = st\<lparr>follows := ys @ zs\<rparr>" by blast
    have "follows_ok (st\<lparr>follows := ys @ zs\<rparr>)"
      using assms d by (auto simp: inv_def follows_ok_def)
    moreover have "users_ok (st\<lparr>follows := ys @ zs\<rparr>)" "posts_ok (st\<lparr>follows := ys @ zs\<rparr>)"
      "likes_ok (st\<lparr>follows := ys @ zs\<rparr>)" "counts_ok (st\<lparr>follows := ys @ zs\<rparr>)"
      using assms by (auto simp: inv_def users_ok_def posts_ok_def likes_ok_def counts_ok_def)
    ultimately show ?thesis unfolding eq by (simp add: inv_def)
  qed
qed

lemma inv_createUser:
  assumes "inv st" "uuid_shaped newId"
  shows "inv (snd (createUser st newId now req))"
proof -
  from createUser_result[of st newId now req] show ?thesis
  proof
    assume "snd (createUser st newId now req) = st"
    with assms show ?thesis by simp
  next
    assume "\<exists>u. snd (createUser st newId now req) = st\<lparr>users := AList.update newId u (users st)\<rparr> \<and>
      user_id u = newId"
    then obtain u where eq: "snd (createUser st newId now req) = st\<lparr>users := AList.update newId u (users st)\<rparr>"
      and uid: "user_id u = newId" by blast
    have "users_ok (st\<lparr>users := AList.update newId u (users st)\<rparr>)"
      unfolding users_ok_def
    proof (intro conjI ballI)
      show "distinct (map fst (users (st\<lparr>users := AList.update newId u (users st)\<rparr>)))"
        using assms(1) by (simp add: inv_def users_ok_def distinct_update)
    next
      fix x assume "x \<in> set (users (st\<lparr>users := AList.update newId u (users st)\<rparr>))"
      then have "x = (newId, u) \<or> x \<in> set (users st)"
        using set_alist_update[of newId u "users st"] by auto
      then show "case x of (k, u) \<Rightarrow> user_id u = k \<and> (uuid_shaped k \<or> k \<in> set SEED_IDS_users)"
        using assms(1) uid assms(2)
        by (auto simp: inv_def users_ok_def)
    qed
    moreover have "follows_ok (st\<lparr>users := AList.update newId u (users st)\<rparr>)"
      using assms(1) unfolding inv_def follows_ok_def
      by (simp add: js_get_update) (metis truthy.simps(1))
    moreover have "posts_ok (st\<lparr>users := AList.update newId u (users st)\<rparr>)"
      "likes_ok (st\<lparr>users := AList.update newId u (users st)\<rparr>)"
      "counts_ok (st\<lparr>users := AList.update newId u (users st)\<rparr>)"
      using assms(1) by (auto simp: inv_def posts_ok_def likes_ok_def counts_ok_def)
    ultimately show ?thesis unfolding eq by (simp add: inv_def)
  qed
qed

lemma inv_like: assumes "inv st" shows "inv (snd (like st pid uid))"
proof -
  from like_result[of st pid uid] show ?thesis
  proof
    assume "snd (like st pid uid) = st"
    with assms show ?thesis by simp
  next
    define st' where "st' = st\<lparr>likes := likes st @ [\<lparr>userId = uid, postId = pid\<rparr>],
         posts := adjust (\<lambda>p. p\<lparr>likesCount := likesCount p + 1\<rparr>) pid (posts st)\<rparr>"
    assume "snd (like st pid uid) =
        st\<lparr>likes := likes st @ [\<lparr>userId = uid, postId = pid\<rparr>],
           posts := adjust (\<lambda>p. p\<lparr>likesCount := likesCount p + 1\<rparr>) pid (posts st)\<rparr> \<and>
      js_truthy uid \<and> truthy (js_get (posts st) pid) \<and>
      (\<exists>k. to_key uid = Some k \<and> truthy (js_get (users st) k)) \<and>
      \<lparr>userId = uid, postId = pid\<rparr> \<notin> set (likes st)"
    then have eq: "snd (like st pid uid) = st'"
      and c: "js_truthy uid" "truthy (js_get (posts st) pid)"
        "\<lparr>userId = uid, postId = pid\<rparr> \<notin> set (likes st)"
      by (simp_all add: st'_def)
    have "users_ok st'" "follows_ok st'"
      using assms by (auto simp: inv_def users_ok_def follows_ok_def st'_def)
    moreover have "posts_ok st'"
      using assms by (auto simp: inv_def posts_ok_def st'_def map_fst_adjust set_adjust split: if_splits)
    moreover have "likes_ok st'"
      using assms c by (auto simp: inv_def likes_ok_def st'_def truthy_adjust)
    moreover have "counts_ok st'"
      unfolding counts_ok_def
    proof (intro ballI, clarify)
      fix k q assume "(k, q) \<in> set (posts st')"
      then obtain p where p: "(k, p) \<in> set (posts st)"
        "q = (if k = pid then p\<lparr>likesCount := likesCount p + 1\<rparr> else p)"
        by (auto simp: st'_def dest: in_adjustD)
      from assms p(1) have "likesCount p = int (length (filter (\<lambda>l. postId l = k) (likes st)))"
        by (simp add: inv_def counts_okD)
      with p(2) show "likesCount q = int (length (filter (\<lambda>l. postId l = k) (likes st')))"
        by (simp add: st'_def)
    qed
    ultimately show ?thesis unfolding eq by (simp add: inv_def)
  qed
qed

lemma inv_unlike: assumes "inv st" shows "inv (snd (unlike st pid uid))"
proof -
  from unlike_result[of st pid uid] show ?thesis
  proof
    assume "snd (unlike st pid uid) = st"
    with assms show ?thesis by simp
  next
    assume "\<exists>ys x zs. likes st = ys @ x # zs \<and> userId x = uid \<and> postId x = pid \<and>
      snd (unlike st pid uid) =
        st\<lparr>likes := ys @ zs,
           posts := adjust (\<lambda>p. p\<lparr>likesCount := max 0 (likesCount p - 1)\<rparr>) pid (posts st)\<rparr>"
    then obtain ys x zs where d: "likes st = ys @ x # zs" "userId x = uid \<and> postId x = pid"
      and eq0: "snd (unlike st pid uid) =
        st\<lparr>likes := ys @ zs,
           posts := adjust (\<lambda>p. p\<lparr>likesCount := max 0 (likesCount p - 1)\<rparr>) pid (posts st)\<rparr>"
      by blast
    define st' where "st' = st\<lparr>likes := ys @ zs,
         posts := adjust (\<lambda>p. p\<lparr>likesCount := max 0 (likesCount p - 1)\<rparr>) pid (posts st)\<rparr>"
    have eq: "snd (unlike st pid uid) = st'" using eq0 by (simp add: st'_def)
    have "users_ok st'" "follows_ok st'"
      using assms by (auto simp: inv_def users_ok_def follows_ok_def st'_def)
    moreover have "posts_ok st'"
      using assms by (auto simp: inv_def posts_ok_def st'_def map_fst_adjust set_adjust split: if_splits)
    moreover have "likes_ok st'"
      using assms d(1) by (auto simp: inv_def likes_ok_def st'_def truthy_adjust)
    moreover have "counts_ok st'"
      unfolding counts_ok_def
    proof (intro ballI, clarify)
      fix k q assume "(k, q) \<in> set (posts st')"
      then obtain p where p: "(k, p) \<in> set (posts st)"
        "q = (if k = pid then p\<lparr>likesCount := max 0 (likesCount p - 1)\<rparr> else p)"
        by (auto simp: st'_def dest: in_adjustD)
      from assms p(1) have "likesCount p = int (length (filter (\<lambda>l. postId l = k) (likes st)))"
        by (simp add: inv_def counts_okD)
      with p(2) d(1,2) show "likesCount q = int (length (filter (\<lambda>l. postId l = k) (likes st')))"
        by (simp add: st'_def)
    qed
    ultimately show ?thesis unfolding eq by (simp add: inv_def)
  qed
qed

lemma inv_deletePost: assumes "inv st" shows "inv (snd (deletePost st pid))"
proof -
  from deletePost_result[of st pid] show ?thesis
  proof
    assume "snd (deletePost st pid) = st"
    with assms show ?thesis by simp
  next
    define st' where "st' = st\<lparr>likes := filter (\<lambda>l. postId l \<noteq> pid) (likes st),
         posts := AList.delete pid (posts st)\<rparr>"
    assume "snd (deletePost st pid) =
      st\<lparr>likes := filter (\<lambda>l. postId l \<noteq> pid) (likes st), posts := AList.delete pid (posts st)\<rparr>"
    then have eq: "snd (deletePost st pid) = st'" by (simp add: st'_def)
    have "users_ok st'" "follows_ok st'"
      using assms by (auto simp: inv_def users_ok_def follows_ok_def st'_def)
    moreover have "posts_ok st'"
      using assms by (auto simp: inv_def posts_ok_def st'_def distinct_delete) (auto simp: AList.delete_eq)
    moreover have "likes_ok st'"
      using assms by (auto simp: inv_def likes_ok_def st'_def js_get_delete)
    moreover have "counts_ok st'"
      unfolding counts_ok_def
    proof (intro ballI, clarify)
      fix k p assume "(k, p) \<in> set (posts st')"
      then have kp: "k \<noteq> pid" "(k, p) \<in> set (posts st)"
        by (auto simp: st'_def AList.delete_eq)
      have "filter (\<lambda>l. postId l = k) (filter (\<lambda>l. postId l \<noteq> pid) (likes st))
          = filter (\<lambda>l. postId l = k) (likes st)"
        using kp(1) by (auto intro: filter_cong)
      with assms kp(2) show "likesCount p = int (length (filter (\<lambda>l. postId l = k) (likes st')))"
        by (simp add: inv_def counts_okD st'_def)
    qed
    ultimately show ?thesis unfolding eq by (simp add: inv_def)
  qed
qed

lemma inv_createPost:
  assumes "inv st" "uuid_shaped newId" "newId \<notin> fst ` set (posts st)"
  shows "inv (snd (createPost st newId now req))"
proof -
  from createPost_result[of st newId now req] show ?thesis
  proof
    assume "snd (createPost st newId now req) = st"
    with assms show ?thesis by simp
  next
    assume "\<exists>p. snd (createPost st newId now req) = st\<lparr>posts := AList.update newId p (posts st)\<rparr> \<and>
      post_id p = newId \<and> likesCount p = 0 \<and> authorId p = req_authorId req \<and>
      to_key (authorId p) \<noteq> None"
    then obtain p where eq: "snd (createPost st newId now req) = st\<lparr>posts := AList.update newId p (posts st)\<rparr>"
      and pid: "post_id p = newId" "likesCount p = 0" "to_key (authorId p) \<noteq> None"
      by blast
    have app: "AList.update newId p (posts st) = posts st @ [(newId, p)]"
      using assms(3) by (rule update_fresh)
    have nolike: "filter (\<lambda>l. postId l = newId) (likes st) = []"
    proof -
      have "\<not> truthy (js_get (posts st) newId)"
        using assms(2,3) by (simp add: truthy_js_get uuid_shaped_not_inherited)
      with assms(1) show ?thesis by (auto simp: inv_def likes_ok_def filter_empty_conv)
    qed
    have "users_ok (st\<lparr>posts := AList.update newId p (posts st)\<rparr>)"
      "follows_ok (st\<lparr>posts := AList.update newId p (posts st)\<rparr>)"
      using assms(1) by (auto simp: inv_def users_ok_def follows_ok_def)
    moreover have "posts_ok (st\<lparr>posts := AList.update newId p (posts st)\<rparr>)"
      using assms pid unfolding app by (auto simp: inv_def posts_ok_def)
    moreover have "likes_ok (st\<lparr>posts := AList.update newId p (posts st)\<rparr>)"
      using assms(1) by (auto simp: inv_def likes_ok_def js_get_update)
    moreover have "counts_ok (st\<lparr>posts := AList.update newId p (posts st)\<rparr>)"
      using assms(1) pid nolike unfolding app by (auto simp: inv_def counts_ok_def)
    ultimately show ?thesis unfolding eq by (simp add: inv_def)
  qed
qed

lemma reach_inv: "reach st \<Longrightarrow> inv st"
proof (induction rule: reach.induct)
  case initial show ?case by (rule inv_empty)
next
  case (seeded now) show ?case by (rule inv_seed)
next
  case (resetAll st) show ?case by (rule inv_reset)
next
  case (createUser st newId req now) then show ?case by (simp add: inv_createUser)
next
  case (createPost st newId preq now) then show ?case by (simp add: inv_createPost)
next
  case (deletePost st pid) then show ?case by (simp add: inv_deletePost)
next
  case (follow st a b) then show ?case by (simp add: inv_follow)
next
  case (unfollow st a b) then show ?case by (simp add: inv_unfollow)
next
  case (like st uid pid) then show ?case by (simp add: inv_like)
next
  case (unlike st uid pid) then show ?case by (simp add: inv_unlike)
qed







lemma post_authors_delete:
  "set (map (\<lambda>e. authorId (snd e)) (AList.delete pid obj)) \<subseteq> set (map (\<lambda>e. authorId (snd e)) obj)"
  by (auto simp: AList.delete_eq)


section \<open>Lemmas about sets, sorting and the suggestion tally\<close>

lemma js_Set_aux: "set (foldl (\<lambda>s x. if x \<in> set s then s else s @ [x]) acc xs) = set acc \<union> set xs \<and>
  (distinct acc \<longrightarrow> distinct (foldl (\<lambda>s x. if x \<in> set s then s else s @ [x]) acc xs))"
  by (induction xs arbitrary: acc) auto

lemma set_js_Set [simp]: "set (js_Set xs) = set xs"
  using js_Set_aux[of "[]" xs] by (simp add: js_Set_def)

lemma distinct_js_Set [simp]: "distinct (js_Set xs)"
  using js_Set_aux[of "[]" xs] by (simp add: js_Set_def)

lemma mset_js_insert: "mset (js_insert cmp x ys) = add_mset x (mset ys)"
  by (induction ys) auto

lemma mset_js_sort [simp]: "mset (js_sort cmp xs) = mset xs"
  by (induction xs) (auto simp: js_sort_def mset_js_insert)

lemma set_js_sort [simp]: "set (js_sort cmp xs) = set xs"
  by (metis mset_js_sort set_mset_mset)


lemma sorted_js_insert_on:
  assumes tot: "\<And>a b. a \<in> A \<Longrightarrow> b \<in> A \<Longrightarrow> cmp a b \<le> 0 \<or> cmp b a \<le> 0"
    and tr: "\<And>a b c. a \<in> A \<Longrightarrow> b \<in> A \<Longrightarrow> c \<in> A \<Longrightarrow> cmp a b \<le> 0 \<Longrightarrow> cmp b c \<le> 0 \<Longrightarrow> cmp a c \<le> 0"
  shows "x \<in> A \<Longrightarrow> set ys \<subseteq> A \<Longrightarrow> sorted_wrt (\<lambda>a b. cmp a b \<le> 0) ys \<Longrightarrow>
         sorted_wrt (\<lambda>a b. cmp a b \<le> 0) (js_insert cmp x ys)"
proof (induction ys)
  case Nil
  show ?case by simp
next
  case (Cons y ys)
  show ?case
  proof (cases "cmp x y \<le> 0")
    case True
    have "cmp x z \<le> 0" if "z \<in> set ys" for z
    proof -
      from Cons.prems that have "cmp y z \<le> 0" "z \<in> A" "y \<in> A" by auto
      with True Cons.prems(1) tr show ?thesis by blast
    qed
    with True Cons.prems show ?thesis by auto
  next
    case False
    with tot Cons.prems have "cmp y x \<le> 0" by auto
    moreover have "set (js_insert cmp x ys) = insert x (set ys)"
      by (metis mset_js_insert set_mset_add_mset_insert set_mset_mset)
    ultimately show ?thesis using False Cons by auto
  qed
qed

lemma sorted_js_sort_on:
  assumes tot: "\<And>a b. a \<in> A \<Longrightarrow> b \<in> A \<Longrightarrow> cmp a b \<le> 0 \<or> cmp b a \<le> 0"
    and tr: "\<And>a b c. a \<in> A \<Longrightarrow> b \<in> A \<Longrightarrow> c \<in> A \<Longrightarrow> cmp a b \<le> 0 \<Longrightarrow> cmp b c \<le> 0 \<Longrightarrow> cmp a c \<le> 0"
  shows "set xs \<subseteq> A \<Longrightarrow> sorted_wrt (\<lambda>a b. cmp a b \<le> 0) (js_sort cmp xs)"
proof (induction xs)
  case Nil
  show ?case by (simp add: js_sort_def)
next
  case (Cons x xs)
  have e: "js_sort cmp (x # xs) = js_insert cmp x (js_sort cmp xs)" by (simp add: js_sort_def)
  from Cons have "sorted_wrt (\<lambda>a b. cmp a b \<le> 0) (js_sort cmp xs)" by simp
  moreover have "x \<in> A" "set (js_sort cmp xs) \<subseteq> A" using Cons.prems by auto
  ultimately show ?case unfolding e by (intro sorted_js_insert_on[OF tot tr])
qed


lemma proto_key_not_dunder: "c \<notin> set object_prototype_keys \<Longrightarrow> c \<noteq> ''__proto__''"
  by (auto simp: object_prototype_keys_def)

lemma map_of_js_assign_other: "x \<noteq> c \<Longrightarrow> map_of (js_assign mc x v) c = map_of mc c"
  by (simp add: js_assign_def update_conv')

lemma map_of_js_assign_same: "c \<noteq> ''__proto__'' \<Longrightarrow> map_of (js_assign mc c v) c = Some v"
  by (simp add: js_assign_def update_conv')

lemma keys_js_assign: "fst ` set (js_assign mc x v) \<subseteq> insert x (fst ` set mc)"
  by (auto simp: js_assign_def dom_update[unfolded dom_map_of_conv_image_fst] split: if_splits)

lemma distinct_js_assign: "distinct (map fst mc) \<Longrightarrow> distinct (map fst (js_assign mc x v))"
  by (simp add: js_assign_def distinct_update)

text \<open>The tally of one clean key after a run of increments.\<close>

lemma tally_clean:
  assumes "c \<notin> set object_prototype_keys"
    and "map_of mc c = (if k = 0 then None else Some (Count (int k)))"
  shows "map_of (foldl (\<lambda>mc x. js_assign mc x (or0_plus1 (js_get mc x))) mc cs) c =
         (if k + count_list cs c = 0 then None else Some (Count (int (k + count_list cs c))))"
  using assms(2)
proof (induction cs arbitrary: mc k)
  case Nil
  then show ?case by simp
next
  case (Cons x cs)
  let ?mc = "js_assign mc x (or0_plus1 (js_get mc x))"
  show ?case
  proof (cases "x = c")
    case True
    have "or0_plus1 (js_get mc c) = Count (int (Suc k))"
      using Cons.prems assms(1) by (auto simp: js_get_def)
    then have "map_of ?mc c = (if Suc k = 0 then None else Some (Count (int (Suc k))))"
      using True assms(1) by (simp add: map_of_js_assign_same proto_key_not_dunder)
    from Cons.IH[OF this] True show ?thesis by simp
  next
    case False
    then have "map_of ?mc c = (if k = 0 then None else Some (Count (int k)))"
      using Cons.prems by (simp add: map_of_js_assign_other)
    from Cons.IH[OF this] False show ?thesis by simp
  qed
qed

lemma tally_keys:
  "fst ` set (foldl (\<lambda>mc x. js_assign mc x (or0_plus1 (js_get mc x))) mc cs) \<subseteq> fst ` set mc \<union> set cs"
proof (induction cs arbitrary: mc)
  case Nil
  show ?case by simp
next
  case (Cons x cs)
  show ?case using Cons.IH[of "js_assign mc x (or0_plus1 (js_get mc x))"] keys_js_assign[of mc x "or0_plus1 (js_get mc x)"]
    by auto
qed

lemma tally_distinct:
  "distinct (map fst mc) \<Longrightarrow>
   distinct (map fst (foldl (\<lambda>mc x. js_assign mc x (or0_plus1 (js_get mc x))) mc cs))"
  by (induction cs arbitrary: mc) (auto simp: distinct_js_assign)

text \<open>
  The nested \<^verbatim>\<open>forEach\<close> is one run over the candidates; it raises exactly when the
  conversion of a candidate does.
\<close>

lemma foldl_foldl_concat: "foldl (\<lambda>a y. foldl g a (h y)) a0 xs = foldl g a0 (concat (map h xs))"
  by (induction xs arbitrary: a0) auto

lemma count_raised:
  "foldl (\<lambda>mc c. case mc of None \<Rightarrow> None
                   | Some m \<Rightarrow> (case to_key c of None \<Rightarrow> None
                               | Some k \<Rightarrow> Some (js_assign m k (or0_plus1 (js_get m k)))))
     None cs = None"
  by (induction cs) auto

lemma count_keys:
  "foldl (\<lambda>mc c. case mc of None \<Rightarrow> None
                   | Some m \<Rightarrow> (case to_key c of None \<Rightarrow> None
                               | Some k \<Rightarrow> Some (js_assign m k (or0_plus1 (js_get m k)))))
     (Some m0) cs
   = (case those (map to_key cs) of
        None \<Rightarrow> None
      | Some ks \<Rightarrow> Some (foldl (\<lambda>mc x. js_assign mc x (or0_plus1 (js_get mc x))) m0 ks))"
proof (induction cs arbitrary: m0)
  case Nil
  show ?case by simp
next
  case (Cons c cs)
  show ?case
  proof (cases "to_key c")
    case None
    then show ?thesis by (simp add: count_raised)
  next
    case (Some k)
    then show ?thesis using Cons.IH[of "js_assign m0 k (or0_plus1 (js_get m0 k))"]
      by (simp split: option.splits)
  qed
qed

lemma inner_forEach:
  "foldl (\<lambda>mc f. case mc of None \<Rightarrow> None
                   | Some m \<Rightarrow>
                       (let candidate = followeeId f in
                        if candidate = uid \<or> candidate \<in> set af then Some m
                        else (case to_key candidate of None \<Rightarrow> None
                              | Some k \<Rightarrow> Some (js_assign m k (or0_plus1 (js_get m k))))))
     mc es
   = foldl (\<lambda>mc c. case mc of None \<Rightarrow> None
                     | Some m \<Rightarrow> (case to_key c of None \<Rightarrow> None
                                 | Some k \<Rightarrow> Some (js_assign m k (or0_plus1 (js_get m k)))))
       mc (filter (\<lambda>c. \<not> (c = uid \<or> c \<in> set af)) (map followeeId es))"
proof (induction es arbitrary: mc)
  case Nil
  show ?case by simp
next
  case (Cons e es)
  show ?case
  proof (cases mc)
    case None
    then show ?thesis using Cons.IH[of None] by simp
  next
    case (Some m)
    then show ?thesis
      using Cons.IH[of "Some m"]
        Cons.IH[of "case to_key (followeeId e) of None \<Rightarrow> None
                     | Some k \<Rightarrow> Some (js_assign m k (or0_plus1 (js_get m k)))"]
      by (simp add: Let_def)
  qed
qed

lemma nested_forEach:
  "foldl (\<lambda>mc followee.
            foldl (\<lambda>mc f. case mc of None \<Rightarrow> None
                           | Some m \<Rightarrow>
                               (let candidate = followeeId f in
                                if candidate = uid \<or> candidate \<in> set af then Some m
                                else (case to_key candidate of None \<Rightarrow> None
                                      | Some k \<Rightarrow> Some (js_assign m k (or0_plus1 (js_get m k))))))
              mc (filter (\<lambda>f. followerId f = followee) fs))
     (Some []) xs
   = map_option tally
       (those (map to_key
          (concat (map (\<lambda>followee. filter (\<lambda>c. \<not> (c = uid \<or> c \<in> set af))
                          (map followeeId (filter (\<lambda>f. followerId f = followee) fs))) xs))))"
  unfolding inner_forEach foldl_foldl_concat count_keys tally_def
  by (simp split: option.splits)

lemma computeSuggestions_eq:
  "computeSuggestions st uid =
   map_option (\<lambda>ks. map (\<lambda>(k, mutualCount). (js_get (users st) k, mutualCount))
                        (js_sort by_mutualCount (mutualCounts st uid ks)))
     (those (map to_key (candidates st uid)))"
  unfolding computeSuggestions_def mutualCounts_def candidates_def followeesOf_def
  by (simp only: Let_def nested_forEach[unfolded Let_def]) (simp split: option.splits)

lemma fill_map_of:
  "map_of (foldl (\<lambda>mc k. if Q k then mc
                          else if \<not> js_in mc k then js_assign mc k (Count 0) else mc) mc ks) c
   = (case map_of mc c of
        Some v \<Rightarrow> Some v
      | None \<Rightarrow> if c \<in> set ks \<and> \<not> Q c \<and> c \<notin> set object_prototype_keys
                then Some (Count 0) else None)"
proof (induction ks arbitrary: mc)
  case Nil
  show ?case by (simp split: option.splits)
next
  case (Cons k ks)
  let ?mc = "if Q k then mc else if \<not> js_in mc k then js_assign mc k (Count 0) else mc"
  have step: "map_of ?mc c =
     (case map_of mc c of Some v \<Rightarrow> Some v
      | None \<Rightarrow> if c = k \<and> \<not> Q c \<and> c \<notin> set object_prototype_keys
                 then Some (Count 0) else None)"
  proof (cases "c = k")
    case True
    show ?thesis
    proof (cases "map_of mc k")
      case None
      then have "k \<notin> fst ` set mc" by (simp add: map_of_eq_None_iff)
      with None True show ?thesis
        by (auto simp: js_in_def map_of_js_assign_same proto_key_not_dunder)
    next
      case (Some v)
      then have "k \<in> fst ` set mc" by (metis map_of_eq_None_iff option.distinct(1))
      with Some True show ?thesis by (auto simp: js_in_def)
    qed
  next
    case False
    then show ?thesis
      by (auto simp: map_of_js_assign_other split: option.splits)
  qed
  let ?F = "\<lambda>mc k. if Q k then mc
                          else if \<not> js_in mc k then js_assign mc k (Count 0) else mc"
  have "map_of (foldl ?F mc (k # ks)) c = map_of (foldl ?F ?mc ks) c"
    by simp
  also have "\<dots> = (case map_of ?mc c of
        Some v \<Rightarrow> Some v
      | None \<Rightarrow> if c \<in> set ks \<and> \<not> Q c \<and> c \<notin> set object_prototype_keys
                then Some (Count 0) else None)"
    by (rule Cons.IH)
  also have "\<dots> = (case map_of mc c of
        Some v \<Rightarrow> Some v
      | None \<Rightarrow> if c \<in> set (k # ks) \<and> \<not> Q c \<and> c \<notin> set object_prototype_keys
                then Some (Count 0) else None)"
    unfolding step by (cases "map_of mc c") auto
  finally show ?case .
qed

lemma fill_distinct:
  "distinct (map fst mc) \<Longrightarrow>
   distinct (map fst (foldl (\<lambda>mc k. if Q k then mc
                          else if \<not> js_in mc k then js_assign mc k (Count 0) else mc) mc ks))"
  by (induction ks arbitrary: mc) (auto simp: distinct_js_assign)

lemma distinct_mutualCounts: "distinct (map fst (mutualCounts st uid ks))"
  unfolding mutualCounts_def tally_def by (intro fill_distinct tally_distinct) simp

lemma count_list_filter: "count_list (filter P xs) c = (if P c then count_list xs c else 0)"
  by (induction xs) auto

lemma count_list_concat_map:
  "count_list (concat (map g xs)) c = sum_list (map (\<lambda>x. count_list (g x) c) xs)"
  by (induction xs) auto

lemma count_edges:
  "distinct fs \<Longrightarrow>
   count_list (map followeeId (filter (\<lambda>f. followerId f = a) fs)) b =
   (if \<lparr>followerId = a, followeeId = b\<rparr> \<in> set fs then 1 else 0)"
proof (induction fs)
  case Nil
  show ?case by simp
next
  case (Cons f fs)
  then show ?case by (cases f) auto
qed

lemma sum_list_indicator:
  "distinct xs \<Longrightarrow> sum_list (map (\<lambda>x. if P x then 1 else 0) xs) = card {x \<in> set xs. P x}"
proof (induction xs)
  case Nil
  show ?case by simp
next
  case (Cons x xs)
  have "{y \<in> set (x # xs). P y} = (if P x then insert x {y \<in> set xs. P y} else {y \<in> set xs. P y})"
    by auto
  with Cons show ?case by auto
qed

lemma count_candidates:
  assumes "distinct (follows st)"
  shows "count_list (candidates st uid) c =
    (if c = JStr uid \<or> c \<in> set (followeesOf st uid) then 0
     else card {f \<in> set (followeesOf st uid). \<lparr>followerId = f, followeeId = c\<rparr> \<in> set (follows st)})"
proof -
  have "count_list (candidates st uid) c =
     sum_list (map (\<lambda>x. if \<not> (c = JStr uid \<or> c \<in> set (followeesOf st uid)) \<and>
                              \<lparr>followerId = x, followeeId = c\<rparr> \<in> set (follows st) then 1 else 0)
                 (js_Set (followeesOf st uid)))"
    unfolding candidates_def count_list_concat_map count_list_filter
    by (rule arg_cong[where f = sum_list]) (auto simp: count_edges[OF assms])
  also have "\<dots> = card {x \<in> set (js_Set (followeesOf st uid)).
       \<not> (c = JStr uid \<or> c \<in> set (followeesOf st uid)) \<and>
       \<lparr>followerId = x, followeeId = c\<rparr> \<in> set (follows st)}"
    by (rule sum_list_indicator) simp
  finally show ?thesis by auto
qed

text \<open>When every candidate is a string, its key is the string.\<close>

lemma keys_of_strings:
  "\<forall>x\<in>set xs. \<exists>s. x = JStr s \<Longrightarrow> those (map to_key xs) = Some (map string_of xs)"
  by (induction xs) auto

lemma count_list_string_of:
  "\<forall>x\<in>set xs. \<exists>s. x = JStr s \<Longrightarrow> count_list (map string_of xs) c = count_list xs (JStr c)"
  by (induction xs) auto

lemma mutualCounts_clean:
  assumes "distinct (follows st)" "c \<notin> set object_prototype_keys"
    "\<forall>x\<in>set (candidates st uid). \<exists>s. x = JStr s"
  shows "map_of (mutualCounts st uid (map string_of (candidates st uid))) c =
    (if c = uid \<or> JStr c \<in> set (followeesOf st uid) then None
     else if card {f \<in> set (followeesOf st uid).
                   \<lparr>followerId = f, followeeId = JStr c\<rparr> \<in> set (follows st)} = 0
       then (if c \<in> fst ` set (users st) then Some (Count 0) else None)
     else Some (Count (int (card {f \<in> set (followeesOf st uid).
             \<lparr>followerId = f, followeeId = JStr c\<rparr> \<in> set (follows st)}))))"
proof -
  let ?ks = "map string_of (candidates st uid)"
  have n: "count_list ?ks c = count_list (candidates st uid) (JStr c)"
    using assms(3) by (rule count_list_string_of)
  have t: "map_of (tally ?ks) c =
      (if count_list ?ks c = 0 then None else Some (Count (int (count_list ?ks c))))"
    unfolding tally_def using tally_clean[OF assms(2), of "[]" 0 ?ks] by simp
  show ?thesis
    unfolding mutualCounts_def fill_map_of t n count_candidates[OF assms(1)]
    using assms(2) by (auto split: option.splits)
qed

section \<open>Lemmas for the properties\<close>

lemma inv_likesCount_consistent: "inv st \<Longrightarrow> likesCount_consistent st"
proof -
  assume i: "inv st"
  show ?thesis
    unfolding likesCount_consistent_def
  proof
    fix p assume "p \<in> snd ` set (posts st)"
    then obtain k where kp: "(k, p) \<in> set (posts st)" by auto
    with i have "post_id p = k" by (auto simp: inv_def posts_ok_def)
    with i kp show "likesCount p = int (length (filter (\<lambda>l. postId l = post_id p) (likes st)))"
      by (simp add: inv_def counts_okD)
  qed
qed

lemma reach_likesCount_consistent: "reach st \<Longrightarrow> likesCount_consistent st"
  by (intro inv_likesCount_consistent reach_inv)

lemma inv_run_calls: "inv st \<Longrightarrow> inv (run_calls st cs)"
proof (induction cs arbitrary: st)
  case Nil
  then show ?case by simp
next
  case (Cons c cs)
  then show ?case by (cases c) (auto intro: inv_like inv_unlike)
qed

lemma inv_likesCount_nonneg:
  assumes "inv st" "p \<in> snd ` set (posts st)" shows "0 \<le> likesCount p"
  using inv_likesCount_consistent[OF assms(1)] assms(2) by (auto simp: likesCount_consistent_def)

lemma findIndex_snoc:
  "\<forall>x\<in>set xs. \<not> P x \<Longrightarrow> P e \<Longrightarrow> findIndex P (xs @ [e]) = int (length xs)"
  by (induction xs) (auto simp: Let_def)

lemma splice1_snoc: "splice1 (int (length xs)) (xs @ [e]) = xs"
  by (simp add: splice1_def)

lemma adjust_adjust:
  "\<forall>(k, p)\<in>set obj. k = pid \<longrightarrow> g (f p) = p \<Longrightarrow> adjust g pid (adjust f pid obj) = obj"
  by (induction obj) (auto simp: adjust_def)

lemma js_get_adjust:
  "js_get (adjust f pid obj) k = (case js_get obj k of Own p \<Rightarrow> Own (if k = pid then f p else p) | r \<Rightarrow> r)"
proof -
  have "map_of (adjust f pid obj) k = map_option (\<lambda>p. if k = pid then f p else p) (map_of obj k)"
    by (induction obj) (auto simp: adjust_def)
  then show ?thesis by (auto simp: js_get_def split: option.splits)
qed

lemma follow_succeeds:
  assumes "js_truthy a" "js_truthy b" "a \<noteq> b" "to_key a = Some ka" "truthy (js_get (users st) ka)"
    "to_key b = Some kb" "truthy (js_get (users st) kb)"
    "\<lparr>followerId = a, followeeId = b\<rparr> \<notin> set (follows st)"
  shows "follow st a b =
    (Inr \<lparr>followerId = a, followeeId = b\<rparr>,
     st\<lparr>follows := follows st @ [\<lparr>followerId = a, followeeId = b\<rparr>]\<rparr>)"
  using assms by (simp add: follow_def list_ex_edge js_get_by_def)

lemma like_succeeds:
  assumes "js_truthy uid" "truthy (js_get (posts st) pid)" "to_key uid = Some k"
    "truthy (js_get (users st) k)" "\<lparr>userId = uid, postId = pid\<rparr> \<notin> set (likes st)"
  shows "like st pid uid =
    (Inr (uid, pid, read_likesCount (adjust (\<lambda>p. p\<lparr>likesCount := likesCount p + 1\<rparr>) pid (posts st)) pid),
     st\<lparr>likes := likes st @ [\<lparr>userId = uid, postId = pid\<rparr>],
        posts := adjust (\<lambda>p. p\<lparr>likesCount := likesCount p + 1\<rparr>) pid (posts st)\<rparr>)"
  using assms by (simp add: like_def list_ex_like Let_def js_get_by_def)


lemma those_map_Some:
  "\<forall>x\<in>set xs. f x \<noteq> None \<Longrightarrow> those (map f xs) = Some (map (\<lambda>x. the (f x)) xs)"
  by (induction xs) auto


lemma in_followeesOf:
  "f \<in> set (followeesOf st u) \<longleftrightarrow> \<lparr>followerId = JStr u, followeeId = f\<rparr> \<in> set (follows st)"
  by (auto simp: followeesOf_def list_ex_edge[symmetric] list_ex_iff image_iff)


lemma own_key_clean:
  assumes "users_ok st" "c \<in> set (map fst (users st))" shows "c \<notin> set object_prototype_keys" "c \<noteq> []"
  using user_key_clean[OF users_ok_key[OF assms]] by simp_all

lemma uuid_ABC: "uuid_shaped user_A" "uuid_shaped user_B" "uuid_shaped user_C"
  by (simp_all add: uuid_shaped_def user_A_def user_B_def user_C_def)

lemma ABC_distinct: "user_A \<noteq> user_B" "user_A \<noteq> user_C" "user_B \<noteq> user_C"
  by (simp_all add: user_A_def user_B_def user_C_def)

lemma users_registered:
  "map fst (users registered_ABC) = [user_A, user_B, user_C]"
  "follows registered_ABC = []" "posts registered_ABC = []" "likes registered_ABC = []"
  using ABC_distinct
  by (simp_all add: registered_ABC_def createUser_def empty_storage_def trim_def is_space_def
      toLowerCase_def Let_def)

lemma pictures_registered:
  "map (\<lambda>u. address_of (profilePicUrl u)) (map snd (users registered_ABC)) = [[], [], []]"
  using ABC_distinct
  by (simp add: registered_ABC_def createUser_def empty_storage_def trim_def is_space_def
      toLowerCase_def Let_def or_null_def)

lemma stored_addresses_registered:
  "stored_addresses (registered_ABC\<lparr>follows := fs\<rparr>) =
     concat (map (\<lambda>f. address_of (followerId f) @ address_of (followeeId f)) fs)"
proof -
  have p: "concat (map (\<lambda>u. address_of (profilePicUrl u)) (map snd (users registered_ABC))) = []"
    unfolding pictures_registered by simp
  have e: "stored_addresses (st\<lparr>follows := fs\<rparr>) =
     concat (map (\<lambda>f. address_of (followerId f) @ address_of (followeeId f)) fs) @
     concat (map (\<lambda>l. address_of (userId l)) (likes st)) @
     concat (map (\<lambda>p. address_of (authorId p) @ address_of (mediaUrl p)) (map snd (posts st))) @
     concat (map (\<lambda>u. address_of (profilePicUrl u)) (map snd (users st)))" for st
    by (simp add: stored_addresses_def)
  show ?thesis unfolding e p users_registered(3,4) by simp
qed

lemma reach_registered: "reach registered_ABC"
  unfolding registered_ABC_def
  by (intro reach.createUser reach.initial uuid_ABC parsed_fresh_plain) simp_all

lemma keys_registered: "fst ` set (users registered_ABC) = {user_A, user_B, user_C}"
  using users_registered(1) by (metis list.set(1) list.simps(15) set_map)

lemma ABC_nonempty: "user_A \<noteq> []" "user_B \<noteq> []" "user_C \<noteq> []"
  using uuid_ABC by (auto dest: uuid_shaped_nonempty)

lemma scenario_eq:
  "scenario_ABC = registered_ABC\<lparr>follows :=
     [\<lparr>followerId = JStr user_A, followeeId = JStr user_B\<rparr>,
      \<lparr>followerId = JStr user_B, followeeId = JStr user_C\<rparr>]\<rparr>"
  using ABC_distinct ABC_nonempty
  by (simp add: scenario_ABC_def follow_def truthy_js_get keys_registered users_registered(2))

lemma reach_scenario: "reach scenario_ABC"
  unfolding scenario_ABC_def by (intro reach.follow reach_registered parsed_fresh_strings)

lemma scenario_array_eq:
  "scenario_array = registered_ABC\<lparr>follows :=
     [\<lparr>followerId = JStr user_A, followeeId = JStr user_B\<rparr>,
      \<lparr>followerId = JStr user_B, followeeId = JArr 1 [JStr user_C]\<rparr>]\<rparr>"
  using ABC_distinct ABC_nonempty
  by (simp add: scenario_array_def follow_def truthy_js_get keys_registered users_registered(2)
      js_get_by_def)

lemma scenario_array_direct_eq:
  "scenario_array_direct = registered_ABC\<lparr>follows :=
     [\<lparr>followerId = JStr user_A, followeeId = JStr user_B\<rparr>,
      \<lparr>followerId = JStr user_B, followeeId = JArr 1 [JStr user_C]\<rparr>,
      \<lparr>followerId = JStr user_A, followeeId = JStr user_C\<rparr>]\<rparr>"
  using ABC_distinct ABC_nonempty
  by (simp add: scenario_array_direct_def scenario_array_eq follow_def truthy_js_get keys_registered
      js_get_by_def)

lemma scenario_array_twice_eq:
  "scenario_array_twice = registered_ABC\<lparr>follows :=
     [\<lparr>followerId = JStr user_A, followeeId = JStr user_B\<rparr>,
      \<lparr>followerId = JStr user_B, followeeId = JArr 1 [JStr user_C]\<rparr>,
      \<lparr>followerId = JStr user_B, followeeId = JArr 2 [JStr user_C]\<rparr>]\<rparr>"
  using ABC_distinct ABC_nonempty
  by (simp add: scenario_array_twice_def scenario_array_eq follow_def truthy_js_get keys_registered
      js_get_by_def)

lemma stored_addresses_scenario_array: "stored_addresses scenario_array = [1]"
  by (simp add: scenario_array_eq stored_addresses_registered)

lemma scenario_AB_eq:
  "snd (follow registered_ABC (JStr user_A) (JStr user_B)) =
     registered_ABC\<lparr>follows := [\<lparr>followerId = JStr user_A, followeeId = JStr user_B\<rparr>]\<rparr>"
  using ABC_distinct ABC_nonempty
  by (simp add: follow_def truthy_js_get keys_registered users_registered(2))

lemma reach_scenario_array: "reach scenario_array"
  unfolding scenario_array_def
  by (intro reach.follow reach_registered parsed_fresh_strings)
     (simp add: parsed_fresh_def scenario_AB_eq stored_addresses_registered)

lemma reach_scenario_array_direct: "reach scenario_array_direct"
  unfolding scenario_array_direct_def by (intro reach.follow reach_scenario_array parsed_fresh_strings)

lemma reach_scenario_array_twice: "reach scenario_array_twice"
  unfolding scenario_array_twice_def
  by (intro reach.follow reach_scenario_array) (simp add: parsed_fresh_def stored_addresses_scenario_array)

lemma stored_addresses_seed: "stored_addresses (seed empty_storage now) = []"
proof -
  have a: "concat (map address_of (post_authors (seed empty_storage now))) = []"
    using authors_seed[of now] by (auto simp: concat_eq_Nil_conv)
  have m: "map (\<lambda>e. mediaUrl (snd e)) (posts (foldl (\<lambda>s l. s\<lparr>likes := likes s @ [l],
       posts := adjust (\<lambda>p. p\<lparr>likesCount := likesCount p + 1\<rparr>) (postId l) (posts s)\<rparr>) s ls))
     = map (\<lambda>e. mediaUrl (snd e)) (posts s)" for s ls
  proof (induction ls arbitrary: s)
    case Nil show ?case by simp
  next
    case (Cons l ls)
    have "map (\<lambda>e. mediaUrl (snd e)) (adjust (\<lambda>p. p\<lparr>likesCount := likesCount p + 1\<rparr>) (postId l) (posts s))
        = map (\<lambda>e. mediaUrl (snd e)) (posts s)"
      by (induction "posts s") (auto simp: adjust_def)
    with Cons.IH show ?case by simp
  qed
  have mu: "concat (map (\<lambda>e. address_of (mediaUrl (snd e))) (posts (seed empty_storage now))) = []"
  proof -
    have "map (\<lambda>e. mediaUrl (snd e)) (posts (seed empty_storage now)) = map mediaUrl (seed_posts now)"
      unfolding seed_eq_loop m by (simp add: o_def)
    moreover have "map (\<lambda>e. address_of (mediaUrl (snd e))) (posts (seed empty_storage now))
      = map address_of (map (\<lambda>e. mediaUrl (snd e)) (posts (seed empty_storage now)))"
      by (simp add: o_def)
    ultimately have "map (\<lambda>e. address_of (mediaUrl (snd e))) (posts (seed empty_storage now))
      = map address_of (map mediaUrl (seed_posts now))"
      by simp
    then show ?thesis by (simp add: seed_posts_def)
  qed
  have ps: "concat (map (\<lambda>p. address_of (authorId p) @ address_of (mediaUrl p))
                 (map snd (posts (seed empty_storage now)))) = []"
    using a mu by (auto simp: concat_eq_Nil_conv post_authors_def)
  show ?thesis
    unfolding stored_addresses_def ps
    by (simp add: follows_seed likes_seed users_seed followRelationships_def likeRelationships_def
        seed_users_def)
qed

lemma seed_keys_set:
  "fst ` set (users (seed empty_storage now)) = set SEED_IDS_users"
  using user_keys_seed[of now] by (metis SEED_IDS_users_def set_map)

lemma truthy_seed_user:
  "truthy (js_get (users (seed empty_storage now)) k) \<longleftrightarrow>
   k \<in> set SEED_IDS_users \<or> k \<in> set object_prototype_keys"
  by (simp only: truthy_js_get seed_keys_set)

lemma seeded_plus_valueOf_eq:
  "follow (seed empty_storage 0) (JStr ''user-dave-0004'') (JStr ''valueOf'') =
     (Inr \<lparr>followerId = JStr ''user-dave-0004'', followeeId = JStr ''valueOf''\<rparr>,
      (seed empty_storage 0)\<lparr>follows := followRelationships @
         [\<lparr>followerId = JStr ''user-dave-0004'', followeeId = JStr ''valueOf''\<rparr>]\<rparr>)"
  by (simp add: follow_def truthy_seed_user follows_seed
      followRelationships_def object_prototype_keys_def SEED_IDS_users_def)

lemma candidates_valueOf:
  "candidates seeded_plus_valueOf ''user-alice-0001'' = [JStr ''valueOf'']"
  by (simp add: seeded_plus_valueOf_def seeded_plus_valueOf_eq candidates_def
      followeesOf_def followRelationships_def js_Set_def)

lemma mutualCounts_valueOf:
  "mutualCounts seeded_plus_valueOf ''user-alice-0001'' [''valueOf''] =
     [(''valueOf'', Junk), (''user-eve-0005'', Count 0), (''user-frank-0006'', Count 0)]"
  by (simp add: seeded_plus_valueOf_def seeded_plus_valueOf_eq mutualCounts_def tally_def
      followeesOf_def followRelationships_def user_keys_seed js_Set_def js_assign_def js_get_def
      js_in_def object_prototype_keys_def)

lemma reach_follow_edges_irreflexive_unique:
  "reach st \<Longrightarrow> distinct (follows st) \<and> (\<forall>f\<in>set (follows st). followerId f \<noteq> followeeId f)"
  using reach_inv by (auto simp: inv_def follows_ok_def)


text \<open>The suggestions in the example stores.\<close>

lemma suggest_by_keys:
  assumes "truthy (js_get (users st) u)" "those (map to_key (candidates st u)) = Some ks"
  shows "suggest st u =
    Inr (map (\<lambda>(k, mutualCount). (js_get (users st) k, mutualCount))
           (js_sort by_mutualCount (mutualCounts st u ks)))"
  using assms by (simp add: suggest_def computeSuggestions_eq)

lemma suggest_scenario_array_direct:
  "suggest scenario_array_direct user_A = Inr [(js_get (users scenario_array_direct) user_C, Count 1)]"
proof -
  have t: "truthy (js_get (users scenario_array_direct) user_A)"
    by (simp add: truthy_js_get scenario_array_direct_eq keys_registered)
  have c: "candidates scenario_array_direct user_A = [JArr 1 [JStr user_C]]"
    using ABC_distinct
    by (simp add: candidates_def followeesOf_def scenario_array_direct_eq js_Set_def)
  have k: "those (map to_key (candidates scenario_array_direct user_A)) = Some [user_C]"
    unfolding c by simp
  have ne: "user_C \<noteq> ''__proto__''" by (simp add: user_C_def)
  have m: "mutualCounts scenario_array_direct user_A [user_C] = [(user_C, Count 1)]"
    using ABC_distinct ne
    by (simp add: mutualCounts_def tally_def followeesOf_def scenario_array_direct_eq js_Set_def
        users_registered js_assign_def js_get_def user_C_def object_prototype_keys_def)
  show ?thesis unfolding suggest_by_keys[OF t k] m by (simp add: js_sort_def)
qed

lemma suggest_scenario_array_twice:
  "suggest scenario_array_twice user_A = Inr [(js_get (users scenario_array_twice) user_C, Count 2)]"
proof -
  have t: "truthy (js_get (users scenario_array_twice) user_A)"
    by (simp add: truthy_js_get scenario_array_twice_eq keys_registered)
  have c: "candidates scenario_array_twice user_A = [JArr 1 [JStr user_C], JArr 2 [JStr user_C]]"
    using ABC_distinct
    by (simp add: candidates_def followeesOf_def scenario_array_twice_eq js_Set_def)
  have k: "those (map to_key (candidates scenario_array_twice user_A)) = Some [user_C, user_C]"
    unfolding c by simp
  have ne: "user_C \<noteq> ''__proto__''" by (simp add: user_C_def)
  have m: "mutualCounts scenario_array_twice user_A [user_C, user_C] = [(user_C, Count 2)]"
    using ABC_distinct ne
    by (simp add: mutualCounts_def tally_def followeesOf_def scenario_array_twice_eq js_Set_def
        users_registered js_assign_def js_get_def js_in_def user_C_def object_prototype_keys_def)
  show ?thesis unfolding suggest_by_keys[OF t k] m by (simp add: js_sort_def)
qed

lemma following_scenario_array_direct:
  "getFollowing scenario_array_direct user_A =
     Inr [js_get (users scenario_array_direct) user_B, js_get (users scenario_array_direct) user_C]"
  "getFollowing scenario_array_direct user_B = Inr [js_get (users scenario_array_direct) user_C]"
  "getFollowers scenario_array_direct user_C = Inr [js_get (users scenario_array_direct) user_A]"
  using ABC_distinct
  by (simp_all add: getFollowing_def getFollowers_def scenario_array_direct_eq truthy_js_get
      keys_registered js_get_by_def)

text \<open>The seeded store after alice follows \<^verbatim>\<open>["user-alice-0001"]\<close>.\<close>

lemma seeded_self_follow_eq:
  "follow (seed empty_storage 0) (JStr ''user-alice-0001'') (JArr 1 [JStr ''user-alice-0001'']) =
     (Inr \<lparr>followerId = JStr ''user-alice-0001'', followeeId = JArr 1 [JStr ''user-alice-0001'']\<rparr>,
      (seed empty_storage 0)\<lparr>follows := followRelationships @
         [\<lparr>followerId = JStr ''user-alice-0001'', followeeId = JArr 1 [JStr ''user-alice-0001'']\<rparr>]\<rparr>)"
  by (simp add: follow_def truthy_seed_user follows_seed js_get_by_def
      followRelationships_def SEED_IDS_users_def)

lemma self_follow_two_arrays:
  "fst (follow (seed empty_storage 0) (JArr 1 [JStr ''user-alice-0001'']) (JArr 2 [JStr ''user-alice-0001''])) =
     Inr \<lparr>followerId = JArr 1 [JStr ''user-alice-0001''], followeeId = JArr 2 [JStr ''user-alice-0001'']\<rparr>"
  by (simp add: follow_def truthy_seed_user follows_seed js_get_by_def
      followRelationships_def SEED_IDS_users_def)

lemma seeded_self_follow_store:
  "seeded_self_follow = (seed empty_storage 0)\<lparr>follows := followRelationships @
         [\<lparr>followerId = JStr ''user-alice-0001'', followeeId = JArr 1 [JStr ''user-alice-0001'']\<rparr>]\<rparr>"
  unfolding seeded_self_follow_def seeded_self_follow_eq by simp

lemma reach_seeded_self_follow: "reach seeded_self_follow"
  unfolding seeded_self_follow_def
  by (intro reach.follow reach.seeded) (simp add: parsed_fresh_def stored_addresses_seed)

lemma usernames_seed:
  "map (\<lambda>k. map_js_prop username (js_get (users (seed empty_storage now)) k))
     [''user-bob-0002'', ''user-carol-0003'', ''user-dave-0004'', ''user-alice-0001'']
   = [Own ''bob'', Own ''carol'', Own ''dave'', Own ''alice'']"
  by (simp add: users_seed seed_users_def js_get_def)

lemma following_seeded_self_follow:
  "getFollowing seeded_self_follow ''user-alice-0001'' =
     Inr (map (js_get (users (seed empty_storage 0)))
            [''user-bob-0002'', ''user-carol-0003'', ''user-dave-0004'', ''user-alice-0001''])"
proof -
  have t: "list_all (\<lambda>k. truthy (js_get (users (seed empty_storage 0)) k))
      [''user-alice-0001'', ''user-bob-0002'', ''user-carol-0003'', ''user-dave-0004'']"
    by (simp add: truthy_seed_user SEED_IDS_users_def)
  then show ?thesis
    unfolding seeded_self_follow_store
    by (simp add: getFollowing_def followRelationships_def js_get_by_def)
qed

text \<open>The seeded store after a like of \<^verbatim>\<open>post-0002\<close> under \<^verbatim>\<open>["user-alice-0001"]\<close>.\<close>

lemma seed_post_0002:
  "\<exists>p. js_get (posts (seed empty_storage now)) ''post-0002'' = Own p \<and> likesCount p = 0"
proof -
  have "''post-0002'' \<in> set (map fst (posts (seed empty_storage now)))"
    unfolding post_keys_seed by simp
  then obtain p where p: "map_of (posts (seed empty_storage now)) ''post-0002'' = Some p"
    by (metis map_of_eq_None_iff not_None_eq set_map)
  then have "(''post-0002'', p) \<in> set (posts (seed empty_storage now))" by (rule map_of_SomeD)
  with inv_seed[of now] have "likesCount p =
      int (length (filter (\<lambda>l. postId l = ''post-0002'') (likes (seed empty_storage now))))"
    by (simp add: inv_def counts_okD)
  then have "likesCount p = 0" by (simp add: likes_seed likeRelationships_def)
  with p show ?thesis by (auto simp: js_get_Own_iff)
qed

lemma seeded_array_like_eq:
  "like (seed empty_storage 0) ''post-0002'' (JArr 1 [JStr ''user-alice-0001'']) =
     (Inr (JArr 1 [JStr ''user-alice-0001''], ''post-0002'', Some 1), seeded_array_like)"
  "seeded_array_like = (seed empty_storage 0)
     \<lparr>likes := likeRelationships @ [\<lparr>userId = JArr 1 [JStr ''user-alice-0001''], postId = ''post-0002''\<rparr>],
      posts := adjust (\<lambda>p. p\<lparr>likesCount := likesCount p + 1\<rparr>) ''post-0002'' (posts (seed empty_storage 0))\<rparr>"
  "read_likesCount (posts (seed empty_storage 0)) ''post-0002'' = Some 0"
  "read_likesCount (posts seeded_array_like) ''post-0002'' = Some 1"
proof -
  from seed_post_0002[of 0] obtain p where
    p: "js_get (posts (seed empty_storage 0)) ''post-0002'' = Own p" "likesCount p = 0" by blast
  have tp: "truthy (js_get (posts (seed empty_storage 0)) ''post-0002'')" using p(1) by simp
  have tu: "truthy (js_get (users (seed empty_storage 0)) ''user-alice-0001'')"
    by (simp add: truthy_seed_user SEED_IDS_users_def)
  have nl: "\<lparr>userId = JArr 1 [JStr ''user-alice-0001''], postId = ''post-0002''\<rparr>
      \<notin> set (likes (seed empty_storage 0))"
    by (simp add: likes_seed likeRelationships_def)
  have l: "like (seed empty_storage 0) ''post-0002'' (JArr 1 [JStr ''user-alice-0001'']) =
    (Inr (JArr 1 [JStr ''user-alice-0001''], ''post-0002'',
          read_likesCount (adjust (\<lambda>p. p\<lparr>likesCount := likesCount p + 1\<rparr>) ''post-0002''
             (posts (seed empty_storage 0))) ''post-0002''),
     (seed empty_storage 0)
       \<lparr>likes := likes (seed empty_storage 0) @
          [\<lparr>userId = JArr 1 [JStr ''user-alice-0001''], postId = ''post-0002''\<rparr>],
        posts := adjust (\<lambda>p. p\<lparr>likesCount := likesCount p + 1\<rparr>) ''post-0002''
          (posts (seed empty_storage 0))\<rparr>)"
    by (rule like_succeeds[OF _ tp _ tu nl]) simp_all
  have r: "read_likesCount (adjust (\<lambda>p. p\<lparr>likesCount := likesCount p + 1\<rparr>) ''post-0002''
             (posts (seed empty_storage 0))) ''post-0002'' = Some 1"
    using p by (simp add: read_likesCount_def js_get_adjust)
  show e: "seeded_array_like = (seed empty_storage 0)
     \<lparr>likes := likeRelationships @ [\<lparr>userId = JArr 1 [JStr ''user-alice-0001''], postId = ''post-0002''\<rparr>],
      posts := adjust (\<lambda>p. p\<lparr>likesCount := likesCount p + 1\<rparr>) ''post-0002'' (posts (seed empty_storage 0))\<rparr>"
    unfolding seeded_array_like_def l by (simp add: likes_seed)
  show "like (seed empty_storage 0) ''post-0002'' (JArr 1 [JStr ''user-alice-0001'']) =
     (Inr (JArr 1 [JStr ''user-alice-0001''], ''post-0002'', Some 1), seeded_array_like)"
    unfolding e l r by (simp add: likes_seed)
  show "read_likesCount (posts (seed empty_storage 0)) ''post-0002'' = Some 0"
    using p by (simp add: read_likesCount_def)
  show "read_likesCount (posts seeded_array_like) ''post-0002'' = Some 1"
    unfolding e using r by simp
qed

lemma reach_seeded_array_like: "reach seeded_array_like"
  unfolding seeded_array_like_def
  by (intro reach.like reach.seeded) (simp add: parsed_fresh_def stored_addresses_seed)

lemma unlike_seeded_array_like:
  "unlike seeded_array_like ''post-0002'' (JArr 2 [JStr ''user-alice-0001'']) =
     (Inl (Failure 404 ''like not found''), seeded_array_like)"
  "unlike seeded_array_like ''post-0002'' (JStr ''user-alice-0001'') =
     (Inl (Failure 404 ''like not found''), seeded_array_like)"
proof -
  from seed_post_0002[of 0] have tp: "truthy (js_get (posts (seed empty_storage 0)) ''post-0002'')"
    by auto
  have n: "\<not> list_ex (\<lambda>l. userId l = JArr 2 [JStr ''user-alice-0001''] \<and> postId l = ''post-0002'')
             (likes seeded_array_like)"
    "\<not> list_ex (\<lambda>l. userId l = JStr ''user-alice-0001'' \<and> postId l = ''post-0002'')
             (likes seeded_array_like)"
    by (simp_all add: seeded_array_like_eq(2) likeRelationships_def)
  have tp': "truthy (js_get (posts seeded_array_like) ''post-0002'')"
    using tp by (simp add: seeded_array_like_eq(2) truthy_adjust)
  show "unlike seeded_array_like ''post-0002'' (JArr 2 [JStr ''user-alice-0001'']) =
     (Inl (Failure 404 ''like not found''), seeded_array_like)"
    using tp' n(1) by (simp add: unlike_def Let_def findIndex_none)
  show "unlike seeded_array_like ''post-0002'' (JStr ''user-alice-0001'') =
     (Inl (Failure 404 ''like not found''), seeded_array_like)"
    using tp' n(2) by (simp add: unlike_def Let_def findIndex_none)
qed

lemma like_again_seeded_array_like:
  "fst (like seeded_array_like ''post-0002'' (JArr 2 [JStr ''user-alice-0001''])) =
     Inr (JArr 2 [JStr ''user-alice-0001''], ''post-0002'', Some 2)"
proof -
  from seed_post_0002[of 0] obtain p where
    p: "js_get (posts (seed empty_storage 0)) ''post-0002'' = Own p" "likesCount p = 0" by blast
  have tp: "truthy (js_get (posts seeded_array_like) ''post-0002'')"
    using p(1) by (simp add: seeded_array_like_eq(2) truthy_adjust)
  have tu: "truthy (js_get (users seeded_array_like) ''user-alice-0001'')"
    by (simp add: seeded_array_like_eq(2) truthy_seed_user SEED_IDS_users_def)
  have nl: "\<lparr>userId = JArr 2 [JStr ''user-alice-0001''], postId = ''post-0002''\<rparr>
      \<notin> set (likes seeded_array_like)"
    by (simp add: seeded_array_like_eq(2) likeRelationships_def)
  have r: "read_likesCount (adjust (\<lambda>p. p\<lparr>likesCount := likesCount p + 1\<rparr>) ''post-0002''
             (posts seeded_array_like)) ''post-0002'' = Some 2"
    using p by (simp add: read_likesCount_def js_get_adjust seeded_array_like_eq(2))
  have "like seeded_array_like ''post-0002'' (JArr 2 [JStr ''user-alice-0001'']) =
    (Inr (JArr 2 [JStr ''user-alice-0001''], ''post-0002'',
          read_likesCount (adjust (\<lambda>p. p\<lparr>likesCount := likesCount p + 1\<rparr>) ''post-0002''
             (posts seeded_array_like)) ''post-0002''),
     seeded_array_like
       \<lparr>likes := likes seeded_array_like @
          [\<lparr>userId = JArr 2 [JStr ''user-alice-0001''], postId = ''post-0002''\<rparr>],
        posts := adjust (\<lambda>p. p\<lparr>likesCount := likesCount p + 1\<rparr>) ''post-0002''
          (posts seeded_array_like)\<rparr>)"
    by (rule like_succeeds[OF _ tp _ tu nl]) simp_all
  then show ?thesis unfolding r by simp
qed

text \<open>The scenario of claim C2 with every id sent as a string.\<close>

lemma scenario_direct_eq:
  "snd (follow scenario_ABC (JStr user_A) (JStr user_C)) = registered_ABC\<lparr>follows :=
     [\<lparr>followerId = JStr user_A, followeeId = JStr user_B\<rparr>,
      \<lparr>followerId = JStr user_B, followeeId = JStr user_C\<rparr>,
      \<lparr>followerId = JStr user_A, followeeId = JStr user_C\<rparr>]\<rparr>"
  using ABC_distinct ABC_nonempty
  by (simp add: scenario_eq follow_def truthy_js_get keys_registered)

lemma suggest_scenario_strings:
  "suggest scenario_ABC user_A = Inr [(js_get (users scenario_ABC) user_C, Count 1)]"
  "suggest (snd (follow scenario_ABC (JStr user_A) (JStr user_C))) user_A = Inr []"
proof -
  have ne: "user_C \<noteq> ''__proto__''" by (simp add: user_C_def)
  have t: "truthy (js_get (users scenario_ABC) user_A)"
    by (simp add: truthy_js_get scenario_eq keys_registered)
  have c: "candidates scenario_ABC user_A = [JStr user_C]"
    using ABC_distinct
    by (simp add: candidates_def followeesOf_def scenario_eq js_Set_def)
  have k: "those (map to_key (candidates scenario_ABC user_A)) = Some [user_C]"
    unfolding c by simp
  have m: "mutualCounts scenario_ABC user_A [user_C] = [(user_C, Count 1)]"
    using ABC_distinct ne
    by (simp add: mutualCounts_def tally_def followeesOf_def scenario_eq js_Set_def
        users_registered js_assign_def js_get_def js_in_def user_C_def object_prototype_keys_def)
  show "suggest scenario_ABC user_A = Inr [(js_get (users scenario_ABC) user_C, Count 1)]"
    unfolding suggest_by_keys[OF t k] m by (simp add: js_sort_def)
  let ?st = "snd (follow scenario_ABC (JStr user_A) (JStr user_C))"
  have t': "truthy (js_get (users ?st) user_A)"
    by (simp add: truthy_js_get scenario_direct_eq keys_registered)
  have c': "candidates ?st user_A = []"
    using ABC_distinct
    by (simp add: candidates_def followeesOf_def scenario_direct_eq js_Set_def)
  have k': "those (map to_key (candidates ?st user_A)) = Some []"
    unfolding c' by simp
  have m': "mutualCounts ?st user_A [] = []"
    using ABC_distinct
    by (simp add: mutualCounts_def tally_def followeesOf_def scenario_direct_eq js_Set_def
        users_registered)
  show "suggest ?st user_A = Inr []"
    unfolding suggest_by_keys[OF t' k'] m' by (simp add: js_sort_def)
qed

text \<open>What the claims say does hold when the ids of a request are strings.\<close>

lemma self_follow_strings_rejected:
  "\<exists>msg. follow st (JStr u) (JStr u) = (Inl (Failure 400 msg), st) \<and>
         msg \<noteq> ''already following this user'' \<and>
         (u \<noteq> [] \<longrightarrow> msg = ''a user cannot follow themselves'')"
  by (simp add: follow_def)

lemma like_then_unlike_restores_for_string_id:
  assumes "reach st" "u \<in> set (map fst (users st))" "pid \<in> set (map fst (posts st))"
    "\<lparr>userId = JStr u, postId = pid\<rparr> \<notin> set (likes st)"
  shows "\<exists>c st1. read_likesCount (posts st) pid = Some c \<and>
            like st pid (JStr u) = (Inr (JStr u, pid, Some (c + 1)), st1) \<and>
            read_likesCount (posts st1) pid = Some (c + 1) \<and>
            unlike st1 pid (JStr u) = (Inr (Some c), st)"
proof -
  from reach_inv[OF assms(1)] have i: "users_ok st" "counts_ok st" by (auto simp: inv_def)
  from own_key_clean[OF i(1) assms(2)] have une: "js_truthy (JStr u)" by simp
  from assms(2) have tu: "truthy (js_get (users st) u)" by (simp add: truthy_js_get)
  from assms(3) have tp: "truthy (js_get (posts st) pid)" by (simp add: truthy_js_get)
  from assms(3) obtain p where p: "map_of (posts st) pid = Some p"
    by (metis map_of_eq_None_iff not_None_eq set_map)
  then have g: "js_get (posts st) pid = Own p" by (simp add: js_get_Own_iff)
  let ?inc = "\<lambda>p. p\<lparr>likesCount := likesCount p + 1\<rparr>"
  let ?dec = "\<lambda>p. p\<lparr>likesCount := max 0 (likesCount p - 1)\<rparr>"
  let ?e = "\<lparr>userId = JStr u, postId = pid\<rparr>"
  let ?st1 = "st\<lparr>likes := likes st @ [?e], posts := adjust ?inc pid (posts st)\<rparr>"
  have l: "like st pid (JStr u) = (Inr (JStr u, pid, Some (likesCount p + 1)), ?st1)"
    using like_succeeds[OF une tp _ tu assms(4)] g by (simp add: read_likesCount_def js_get_adjust)
  have r1: "read_likesCount (posts ?st1) pid = Some (likesCount p + 1)"
    using g by (simp add: read_likesCount_def js_get_adjust)
  have nn: "\<forall>(k, q)\<in>set (posts st). k = pid \<longrightarrow> ?dec (?inc q) = q"
  proof (clarify)
    fix q assume "(pid, q) \<in> set (posts st)"
    with i(2) have "0 \<le> likesCount q" by (simp add: counts_okD)
    then show "?dec (?inc q) = q" by simp
  qed
  have fi: "findIndex (\<lambda>l. userId l = JStr u \<and> postId l = pid) (likes st @ [?e]) = int (length (likes st))"
    using assms(4) by (intro findIndex_snoc) (auto simp: like_eq[symmetric])
  have ul: "unlike ?st1 pid (JStr u) = (Inr (Some (likesCount p)), st)"
    using une tp g nn
    by (simp add: unlike_def Let_def truthy_adjust fi splice1_snoc adjust_adjust read_likesCount_def)
  from l r1 ul g show ?thesis
    by (auto simp: read_likesCount_def)
qed

lemma likesCount_never_negative:
  assumes "reach st" shows "\<forall>q\<in>snd ` set (posts (run_calls st cs)). 0 \<le> likesCount q"
  using inv_likesCount_nonneg[OF inv_run_calls[OF reach_inv[OF assms]]] by blast

text \<open>
  The suggestions in the reachable stores whose edges all end in the id of a stored user,
  given as a string: there the candidates are exactly what claims C1 and C2 say.
\<close>

lemma fill_key_source:
  assumes "map_of (foldl (\<lambda>mc k. if Q k then mc
                          else if \<not> js_in mc k then js_assign mc k (Count 0) else mc) mc ks) c = Some v"
  shows "map_of mc c = Some v \<or> (c \<in> set ks \<and> \<not> Q c \<and> c \<notin> set object_prototype_keys \<and> v = Count 0)"
  using assms unfolding fill_map_of by (auto split: option.splits if_splits)

lemma candidates_are_followees:
  "c \<in> set (candidates st u) \<Longrightarrow> c \<in> followeeId ` set (follows st)"
  by (auto simp: candidates_def)

lemma js_get_own_keys:
  "distinct (map fst al) \<Longrightarrow> map (js_get al) (map fst (filter Q al)) = map (\<lambda>e. Own (snd e)) (filter Q al)"
proof -
  assume d: "distinct (map fst al)"
  have "js_get al (fst e) = Own (snd e)" if "e \<in> set al" for e
  proof -
    obtain k v where e: "e = (k, v)" by (cases e)
    with that d have "map_of al k = Some v" by simp
    with e show ?thesis by (simp add: js_get_Own_iff)
  qed
  then show ?thesis by (simp add: o_def cong: map_cong)
qed

lemma by_mutualCount_Count:
  "snd a = Count x \<Longrightarrow> snd b = Count y \<Longrightarrow> by_mutualCount a b = y - x"
  by (cases a; cases b) simp

lemma candidates_strings:
  assumes "\<forall>f\<in>set (follows st). followeeId f \<in> JStr ` set (map fst (users st))"
  shows "\<forall>x\<in>set (candidates st u). \<exists>s. x = JStr s"
proof
  fix x assume "x \<in> set (candidates st u)"
  then have "x \<in> followeeId ` set (follows st)" by (rule candidates_are_followees)
  with assms show "\<exists>s. x = JStr s" by auto
qed

lemma suggest_when_edges_name_users:
  assumes "truthy (js_get (users st) u)"
    "\<forall>f\<in>set (follows st). followeeId f \<in> JStr ` set (map fst (users st))"
  shows "suggest st u =
    Inr (map (\<lambda>(k, mutualCount). (js_get (users st) k, mutualCount))
           (js_sort by_mutualCount (mutualCounts st u (map string_of (candidates st u)))))"
  using suggest_by_keys[OF assms(1) keys_of_strings[OF candidates_strings[OF assms(2)]]] .

lemma suggestion_entry_iff:
  assumes "users_ok st" "map_of (users st) c = Some cand"
  shows "(Own cand, m) \<in> set (map (\<lambda>(k, mutualCount). (js_get (users st) k, mutualCount))
           (js_sort by_mutualCount (mutualCounts st u ks)))
     \<longleftrightarrow> map_of (mutualCounts st u ks) c = Some m"
proof
  assume "(Own cand, m) \<in> set (map (\<lambda>(k, mutualCount). (js_get (users st) k, mutualCount))
           (js_sort by_mutualCount (mutualCounts st u ks)))"
  then obtain k where k: "(k, m) \<in> set (mutualCounts st u ks)" "js_get (users st) k = Own cand"
    by auto
  from k(2) have "map_of (users st) k = Some cand" by (simp add: js_get_Own_iff)
  then have "(k, cand) \<in> set (users st)" by (rule map_of_SomeD)
  then have "user_id cand = k" using assms(1) by (auto simp: users_ok_def)
  moreover from assms(2) have "(c, cand) \<in> set (users st)" by (rule map_of_SomeD)
  then have "user_id cand = c" using assms(1) by (auto simp: users_ok_def)
  ultimately have "k = c" by simp
  with k(1) show "map_of (mutualCounts st u ks) c = Some m"
    using distinct_mutualCounts[of st u ks] by simp
next
  assume "map_of (mutualCounts st u ks) c = Some m"
  then have "(c, m) \<in> set (mutualCounts st u ks)" by (rule map_of_SomeD)
  moreover have "js_get (users st) c = Own cand" using assms(2) by (simp add: js_get_Own_iff)
  ultimately show "(Own cand, m) \<in> set (map (\<lambda>(k, mutualCount). (js_get (users st) k, mutualCount))
           (js_sort by_mutualCount (mutualCounts st u ks)))"
    by force
qed

lemma suggestions_exact_when_edges_name_users:
  assumes "reach st" "u \<in> set (map fst (users st))"
    and cl: "\<forall>f\<in>set (follows st). followeeId f \<in> JStr ` set (map fst (users st))"
  shows "\<exists>out. suggest st u = Inr out \<and>
     mset (map fst out) =
       mset (map Own (filter (\<lambda>x. user_id x \<noteq> u \<and> JStr (user_id x) \<notin> set (followeesOf st u))
                        (map snd (users st)))) \<and>
     (\<forall>e\<in>set out. \<exists>n\<ge>0. snd e = Count n) \<and>
     sorted_wrt (\<lambda>a b. \<exists>x y. snd a = Count x \<and> snd b = Count y \<and> y \<le> x) out"
proof -
  from reach_inv[OF assms(1)] have uo: "users_ok st" and fo: "follows_ok st" by (auto simp: inv_def)
  from fo have df: "distinct (follows st)" by (simp add: follows_ok_def)
  from uo have du: "distinct (map fst (users st))" by (simp add: users_ok_def)
  have tu: "truthy (js_get (users st) u)" using assms(2) by (simp add: truthy_js_get)
  have cs: "\<forall>x\<in>set (candidates st u). \<exists>s. x = JStr s" using cl by (rule candidates_strings)
  let ?ks = "map string_of (candidates st u)"
  let ?mc = "mutualCounts st u ?ks"
  let ?el = "\<lambda>k. k \<noteq> u \<and> JStr k \<notin> set (followeesOf st u)"
  have dm: "distinct (map fst ?mc)" by (rule distinct_mutualCounts)
  have clean: "k \<notin> set object_prototype_keys" if "k \<in> set (map fst (users st))" for k
    using own_key_clean[OF uo that] by simp
  have src: "k \<in> set (map fst (users st)) \<and> ?el k \<and> (\<exists>n\<ge>0. v = Count n)"
    if kv: "(k, v) \<in> set ?mc" for k v
  proof -
    from kv dm have m: "map_of ?mc k = Some v" by simp
    have ku: "k \<in> set (map fst (users st))"
    proof -
      from m fill_key_source[of "\<lambda>k. k = u \<or> JStr k \<in> set (js_Set (followeesOf st u))"
          "tally ?ks" "map fst (users st)" k v]
      consider "map_of (tally ?ks) k = Some v" | "k \<in> set (map fst (users st))"
        unfolding mutualCounts_def by blast
      then show ?thesis
      proof cases
        case 1
        then have "k \<in> fst ` set (tally ?ks)"
          by (metis map_of_eq_None_iff option.distinct(1))
        with tally_keys[of "[]" ?ks] have "k \<in> set ?ks" by (auto simp: tally_def)
        then obtain x where x: "x \<in> set (candidates st u)" "k = string_of x" by auto
        from x(1) have "x \<in> followeeId ` set (follows st)" by (rule candidates_are_followees)
        with cl have "x \<in> JStr ` set (map fst (users st))" by auto
        then obtain s where "x = JStr s" "s \<in> set (map fst (users st))" by blast
        with x(2) show ?thesis by simp
      next
        case 2
        then show ?thesis .
      qed
    qed
    from m mutualCounts_clean[OF df clean[OF ku] cs] ku show ?thesis
      by (auto split: if_splits)
  qed
  have keys: "set (map fst ?mc) = set (filter ?el (map fst (users st)))"
  proof (intro set_eqI iffI)
    fix k assume "k \<in> set (map fst ?mc)"
    then obtain v where "(k, v) \<in> set ?mc" by auto
    from src[OF this] show "k \<in> set (filter ?el (map fst (users st)))" by simp
  next
    fix k assume k: "k \<in> set (filter ?el (map fst (users st)))"
    then have ku: "k \<in> set (map fst (users st))" by simp
    from k mutualCounts_clean[OF df clean[OF ku] cs] ku have "map_of ?mc k \<noteq> None"
      by (auto split: if_splits)
    then show "k \<in> set (map fst ?mc)" by (metis map_of_eq_None_iff set_map)
  qed
  have "distinct (filter ?el (map fst (users st)))" using du by simp
  from set_eq_iff_mset_eq_distinct[OF dm this] keys
  have mk: "mset (map fst ?mc) = mset (filter ?el (map fst (users st)))" by blast
  let ?out = "map (\<lambda>(k, mutualCount). (js_get (users st) k, mutualCount)) (js_sort by_mutualCount ?mc)"
  have s: "suggest st u = Inr ?out" using suggest_when_edges_name_users[OF tu cl] .
  have "map fst ?out = map (js_get (users st)) (map fst (js_sort by_mutualCount ?mc))"
    by (simp add: o_def split_def)
  then have "mset (map fst ?out) = image_mset (js_get (users st)) (mset (map fst ?mc))"
    by (metis mset_js_sort mset_map)
  also have "\<dots> = mset (map (js_get (users st)) (filter ?el (map fst (users st))))"
    unfolding mk by (simp only: mset_map)
  also have "filter ?el (map fst (users st)) = map fst (filter (\<lambda>e. ?el (fst e)) (users st))"
    by (simp add: filter_map o_def)
  also have "map (js_get (users st)) (map fst (filter (\<lambda>e. ?el (fst e)) (users st)))
      = map (\<lambda>e. Own (snd e)) (filter (\<lambda>e. ?el (fst e)) (users st))"
    by (rule js_get_own_keys[OF du])
  also have "filter (\<lambda>e. ?el (fst e)) (users st) = filter (\<lambda>e. ?el (user_id (snd e))) (users st)"
    using uo by (intro filter_cong) (auto simp: users_ok_def)
  also have "map (\<lambda>e. Own (snd e)) (filter (\<lambda>e. ?el (user_id (snd e))) (users st))
      = map Own (filter (\<lambda>x. ?el (user_id x)) (map snd (users st)))"
    by (simp add: filter_map o_def)
  finally have 1: "mset (map fst ?out) =
       mset (map Own (filter (\<lambda>x. ?el (user_id x)) (map snd (users st))))" .
  have 2: "\<forall>e\<in>set ?out. \<exists>n\<ge>0. snd e = Count n"
    using src by auto
  let ?A = "{e::string \<times> mutual. \<exists>n. snd e = Count n}"
  have sub: "set ?mc \<subseteq> ?A"
  proof
    fix e assume "e \<in> set ?mc"
    then have "(fst e, snd e) \<in> set ?mc" by simp
    from src[OF this] show "e \<in> ?A" by blast
  qed
  have tot: "by_mutualCount a b \<le> 0 \<or> by_mutualCount b a \<le> 0" if "a \<in> ?A" "b \<in> ?A" for a b
  proof -
    from that obtain x y where "snd a = Count x" "snd b = Count y" by blast
    then have "by_mutualCount a b = y - x" "by_mutualCount b a = x - y"
      by (simp_all add: by_mutualCount_Count)
    then show ?thesis by linarith
  qed
  have tr: "by_mutualCount a c \<le> 0"
    if "a \<in> ?A" "b \<in> ?A" "c \<in> ?A" "by_mutualCount a b \<le> 0" "by_mutualCount b c \<le> 0" for a b c
  proof -
    from that(1,2,3) obtain x y z where "snd a = Count x" "snd b = Count y" "snd c = Count z" by blast
    then have "by_mutualCount a b = y - x" "by_mutualCount b c = z - y" "by_mutualCount a c = z - x"
      by (simp_all add: by_mutualCount_Count)
    with that(4,5) show ?thesis by linarith
  qed
  have so: "sorted_wrt (\<lambda>a b. by_mutualCount a b \<le> 0) (js_sort by_mutualCount ?mc)"
    using tot tr sub by (rule sorted_js_sort_on)
  have "sorted_wrt (\<lambda>a b. \<exists>x y. snd a = Count x \<and> snd b = Count y \<and> y \<le> x)
      (js_sort by_mutualCount ?mc)"
  proof (rule sorted_wrt_mono_rel[OF _ so])
    fix a b assume "a \<in> set (js_sort by_mutualCount ?mc)" "b \<in> set (js_sort by_mutualCount ?mc)"
      and le: "by_mutualCount a b \<le> 0"
    with sub have "a \<in> ?A" "b \<in> ?A" by auto
    then obtain x y where xy: "snd a = Count x" "snd b = Count y" by blast
    then have "by_mutualCount a b = y - x" by (simp add: by_mutualCount_Count)
    with le xy show "\<exists>x y. snd a = Count x \<and> snd b = Count y \<and> y \<le> x" by simp
  qed
  then have 3: "sorted_wrt (\<lambda>a b. \<exists>x y. snd a = Count x \<and> snd b = Count y \<and> y \<le> x) ?out"
    by (simp add: sorted_wrt_map split_def)
  from s 1 2 3 show ?thesis by blast
qed

lemma mutualCount_counts_two_hop_paths_when_edges_name_users:
  assumes "reach st" "u \<in> set (map fst (users st))" "c \<in> set (map fst (users st))"
    "c \<noteq> u" "JStr c \<notin> set (followeesOf st u)"
    and cl: "\<forall>f\<in>set (follows st). followeeId f \<in> JStr ` set (map fst (users st))"
  shows "\<exists>out. suggest st u = Inr out \<and>
     (js_get (users st) c,
      Count (int (card {f \<in> set (followeesOf st u).
                        \<lparr>followerId = f, followeeId = JStr c\<rparr> \<in> set (follows st)}))) \<in> set out \<and>
     (\<forall>m. (js_get (users st) c, m) \<in> set out \<longrightarrow>
        m = Count (int (card {f \<in> set (followeesOf st u).
                              \<lparr>followerId = f, followeeId = JStr c\<rparr> \<in> set (follows st)}))) \<and>
     (\<lparr>followerId = JStr u, followeeId = b\<rparr> \<in> set (follows st) \<and>
      \<lparr>followerId = b, followeeId = JStr c\<rparr> \<in> set (follows st) \<and>
      (\<forall>f. \<lparr>followerId = JStr u, followeeId = f\<rparr> \<in> set (follows st) \<and>
           \<lparr>followerId = f, followeeId = JStr c\<rparr> \<in> set (follows st) \<longrightarrow> f = b) \<longrightarrow>
        (js_get (users st) c, Count 1) \<in> set out) \<and>
     (\<forall>e st'. follow st (JStr u) (JStr c) = (Inr e, st') \<longrightarrow>
        (\<exists>out'. suggest st' u = Inr out' \<and> (\<forall>m. (js_get (users st') c, m) \<notin> set out')))"
proof -
  from reach_inv[OF assms(1)] have uo: "users_ok st" and fo: "follows_ok st" by (auto simp: inv_def)
  from fo have df: "distinct (follows st)" by (simp add: follows_ok_def)
  from assms(3) obtain cand where cand: "map_of (users st) c = Some cand"
    by (metis map_of_eq_None_iff not_None_eq set_map)
  then have gc: "js_get (users st) c = Own cand" by (simp add: js_get_Own_iff)
  have cl': "c \<notin> set object_prototype_keys" using own_key_clean[OF uo assms(3)] by simp
  have tu: "truthy (js_get (users st) u)" using assms(2) by (simp add: truthy_js_get)
  have cs: "\<forall>x\<in>set (candidates st u). \<exists>s. x = JStr s" using cl by (rule candidates_strings)
  let ?n = "card {f \<in> set (followeesOf st u). \<lparr>followerId = f, followeeId = JStr c\<rparr> \<in> set (follows st)}"
  let ?mc = "mutualCounts st u (map string_of (candidates st u))"
  let ?out = "map (\<lambda>(k, mutualCount). (js_get (users st) k, mutualCount)) (js_sort by_mutualCount ?mc)"
  have mc: "map_of ?mc c = Some (Count (int ?n))"
    using mutualCounts_clean[OF df cl' cs] assms(3,4,5) by auto
  have s: "suggest st u = Inr ?out" using suggest_when_edges_name_users[OF tu cl] .
  have 1: "(js_get (users st) c, Count (int ?n)) \<in> set ?out"
    unfolding gc using mc by (simp only: suggestion_entry_iff[OF uo cand])
  have 2: "\<forall>m. (js_get (users st) c, m) \<in> set ?out \<longrightarrow> m = Count (int ?n)"
    unfolding gc using mc by (simp only: suggestion_entry_iff[OF uo cand]) simp
  have 3: "(js_get (users st) c, Count 1) \<in> set ?out"
    if h: "\<lparr>followerId = JStr u, followeeId = b\<rparr> \<in> set (follows st) \<and>
      \<lparr>followerId = b, followeeId = JStr c\<rparr> \<in> set (follows st) \<and>
      (\<forall>f. \<lparr>followerId = JStr u, followeeId = f\<rparr> \<in> set (follows st) \<and>
           \<lparr>followerId = f, followeeId = JStr c\<rparr> \<in> set (follows st) \<longrightarrow> f = b)"
  proof -
    have "{f \<in> set (followeesOf st u). \<lparr>followerId = f, followeeId = JStr c\<rparr> \<in> set (follows st)} = {b}"
      using h by (auto simp: in_followeesOf)
    then have "?n = 1" by simp
    with 1 show ?thesis by simp
  qed
  have 4: "\<exists>out'. suggest st' u = Inr out' \<and> (\<forall>m. (js_get (users st') c, m) \<notin> set out')"
    if h: "follow st (JStr u) (JStr c) = (Inr e, st')" for e st'
  proof -
    have st': "st' = snd (follow st (JStr u) (JStr c))" using h by simp
    then have r': "reach st'" using assms(1) by (simp add: reach.follow)
    from follow_succeeded[OF h]
    have eq: "st' = st\<lparr>follows := follows st @ [\<lparr>followerId = JStr u, followeeId = JStr c\<rparr>]\<rparr>"
      by simp
    from reach_inv[OF r'] have uo': "users_ok st'" and fo': "follows_ok st'" by (auto simp: inv_def)
    have us: "users st' = users st" by (simp add: eq)
    have cl2: "\<forall>f\<in>set (follows st'). followeeId f \<in> JStr ` set (map fst (users st'))"
      using cl assms(3) by (auto simp: eq)
    have cs': "\<forall>x\<in>set (candidates st' u). \<exists>s. x = JStr s" using cl2 by (rule candidates_strings)
    have inf: "JStr c \<in> set (followeesOf st' u)" by (simp add: in_followeesOf eq)
    have "map_of (mutualCounts st' u (map string_of (candidates st' u))) c = None"
      using mutualCounts_clean[OF _ cl' cs'] fo' inf by (simp add: follows_ok_def)
    then have "\<forall>m. (Own cand, m) \<notin> set (map (\<lambda>(k, mutualCount). (js_get (users st') k, mutualCount))
           (js_sort by_mutualCount (mutualCounts st' u (map string_of (candidates st' u)))))"
      using suggestion_entry_iff[OF uo', of c cand _ u "map string_of (candidates st' u)"] cand us
      by simp
    moreover have "suggest st' u =
      Inr (map (\<lambda>(k, mutualCount). (js_get (users st') k, mutualCount))
           (js_sort by_mutualCount (mutualCounts st' u (map string_of (candidates st' u)))))"
      using suggest_when_edges_name_users[OF _ cl2] tu us by simp
    ultimately show ?thesis using gc us by simp
  qed
  from s 1 2 3 4 show ?thesis by blast
qed

section \<open>The properties\<close>

subsection \<open>C1: what the suggestions list\<close>

text \<open>
  Claim C1 says that in every reachable store the suggestions of a stored user are
  exactly the other users that are not followed, each once, with a count that is at least
  zero. The code does not keep this. \<^verbatim>\<open>POST /api/follow\<close> tests
  \<^verbatim>\<open>storage.users[followeeId]\<close> for truthiness, which an inherited member name such as
  \<^verbatim>\<open>valueOf\<close> passes, so an edge to an id that is no user is stored. On the seeded store,
  after dave follows \<^verbatim>\<open>valueOf\<close>, the suggestions of alice (who follows dave) start with
  an entry that is no user and whose \<^verbatim>\<open>mutualCount\<close> is a string. In the reachable
  stores whose edges all end in the id of a stored user, given as a string, the
  suggestions are as the claim says (\<open>suggestions_exact_when_edges_name_users\<close>).
\<close>

theorem suggest_lists_inherited_member:
  "reach seeded_plus_valueOf \<and>
   ''user-alice-0001'' \<in> set (map fst (users seeded_plus_valueOf)) \<and>
   ''valueOf'' \<notin> set (map fst (users seeded_plus_valueOf)) \<and>
   suggest seeded_plus_valueOf ''user-alice-0001'' =
     Inr [(Inherited ''valueOf'', Junk),
          (js_get (users seeded_plus_valueOf) ''user-eve-0005'', Count 0),
          (js_get (users seeded_plus_valueOf) ''user-frank-0006'', Count 0)]"
proof -
  have r: "reach seeded_plus_valueOf"
    unfolding seeded_plus_valueOf_def by (intro reach.follow reach.seeded parsed_fresh_strings)
  have ks: "map fst (users seeded_plus_valueOf) =
     [''user-alice-0001'', ''user-bob-0002'', ''user-carol-0003'', ''user-dave-0004'',
      ''user-eve-0005'', ''user-frank-0006'']"
    by (simp add: seeded_plus_valueOf_def seeded_plus_valueOf_eq user_keys_seed)
  have a: "''user-alice-0001'' \<in> set (map fst (users seeded_plus_valueOf))"
    and v: "''valueOf'' \<notin> set (map fst (users seeded_plus_valueOf))"
    unfolding ks by simp_all
  have t: "truthy (js_get (users seeded_plus_valueOf) ''user-alice-0001'')"
    using a by (simp add: truthy_js_get)
  have g: "js_get (users seeded_plus_valueOf) ''valueOf'' = Inherited ''valueOf''"
    using v by (simp add: js_get_def map_of_eq_None_iff[THEN iffD2] object_prototype_keys_def)
  have k: "those (map to_key (candidates seeded_plus_valueOf ''user-alice-0001'')) = Some [''valueOf'']"
    unfolding candidates_valueOf by simp
  have "suggest seeded_plus_valueOf ''user-alice-0001'' =
     Inr [(Inherited ''valueOf'', Junk),
          (js_get (users seeded_plus_valueOf) ''user-eve-0005'', Count 0),
          (js_get (users seeded_plus_valueOf) ''user-frank-0006'', Count 0)]"
    unfolding suggest_by_keys[OF t k] mutualCounts_valueOf using g by (simp add: js_sort_def)
  with r a v show ?thesis by simp
qed

subsection \<open>C2: the count and the two-step paths\<close>

text \<open>
  Claim C2 says that the count reported for a candidate is the number of followees of
  the user that follow the candidate, that in the scenario of the three users A, B and C
  the suggestions of A list C with count 1, and that they list C no more once A follows
  C. The code does not keep this. \<^verbatim>\<open>POST /api/follow\<close> never tests that an id is a
  string: with \<^verbatim>\<open>followeeId\<close> sent as \<^verbatim>\<open>["<id of C>"]\<close> the read of \<^verbatim>\<open>storage.users\<close>
  finds C and the edge is stored with the array in it. Then B follows C
  (\<^verbatim>\<open>GET /api/users/B/following\<close> lists C), and after A has followed C as well the
  suggestions of A still list C with count 1, because the array of B's edge is not in
  the set of A's followees. And when B sends that body twice, both requests are answered
  201 and the suggestions of A list C with count 2 although A follows B only. With every
  id sent as a string the scenario goes as the claim says (\<open>suggest_scenario_strings\<close>),
  and in the reachable stores whose edges all end in the id of a stored user, given as a
  string, the count is the number of two-step paths
  (\<open>mutualCount_counts_two_hop_paths_when_edges_name_users\<close>).
\<close>

theorem suggest_keeps_followed_user_for_array_id:
  "reach scenario_array_direct \<and>
   map fst (users scenario_array_direct) = [user_A, user_B, user_C] \<and>
   follows scenario_array_direct =
     [\<lparr>followerId = JStr user_A, followeeId = JStr user_B\<rparr>,
      \<lparr>followerId = JStr user_B, followeeId = JArr 1 [JStr user_C]\<rparr>,
      \<lparr>followerId = JStr user_A, followeeId = JStr user_C\<rparr>] \<and>
   getFollowing scenario_array_direct user_B = Inr [js_get (users scenario_array_direct) user_C] \<and>
   getFollowing scenario_array_direct user_A =
     Inr [js_get (users scenario_array_direct) user_B, js_get (users scenario_array_direct) user_C] \<and>
   suggest scenario_array_direct user_A =
     Inr [(js_get (users scenario_array_direct) user_C, Count 1)] \<and>
   reach scenario_array_twice \<and>
   followeesOf scenario_array_twice user_A = [JStr user_B] \<and>
   suggest scenario_array_twice user_A =
     Inr [(js_get (users scenario_array_twice) user_C, Count 2)]"
proof -
  have u: "map fst (users scenario_array_direct) = [user_A, user_B, user_C]"
    by (simp add: scenario_array_direct_eq users_registered)
  have f: "follows scenario_array_direct =
     [\<lparr>followerId = JStr user_A, followeeId = JStr user_B\<rparr>,
      \<lparr>followerId = JStr user_B, followeeId = JArr 1 [JStr user_C]\<rparr>,
      \<lparr>followerId = JStr user_A, followeeId = JStr user_C\<rparr>]"
    by (simp add: scenario_array_direct_eq)
  have g: "followeesOf scenario_array_twice user_A = [JStr user_B]"
    using ABC_distinct by (simp add: followeesOf_def scenario_array_twice_eq)
  from reach_scenario_array_direct u f following_scenario_array_direct(1,2)
    suggest_scenario_array_direct reach_scenario_array_twice g suggest_scenario_array_twice
  show ?thesis by (intro conjI)
qed

subsection \<open>C3: the like counter\<close>

text \<open>
  Claim C3. In every store reachable from the empty or the seeded store, every stored
  post's \<^verbatim>\<open>likesCount\<close> is the number of like edges whose \<^verbatim>\<open>postId\<close> is the post's id,
  and the equality still holds after a like, an unlike, a post deletion (with its
  cascade), a post creation (under a fresh uuid), a reset, and for the seeded store,
  whatever the bodies of the requests hold.
\<close>

theorem likesCount_counts_like_edges:
  assumes "reach st"
  shows "likesCount_consistent st \<and>
         likesCount_consistent (snd (like st pid uid)) \<and>
         likesCount_consistent (snd (unlike st pid uid)) \<and>
         likesCount_consistent (snd (deletePost st pid)) \<and>
         (uuid_shaped newId \<and> newId \<notin> fst ` set (posts st) \<longrightarrow>
            likesCount_consistent (snd (createPost st newId now req))) \<and>
         likesCount_consistent (reset st) \<and>
         likesCount_consistent (seed empty_storage now)"
proof -
  from assms have i: "inv st" by (rule reach_inv)
  show ?thesis
    using i
    by (auto intro!: inv_likesCount_consistent inv_like inv_unlike inv_deletePost inv_createPost
        inv_reset inv_seed)
qed

theorem likesCount_counts_like_edges_witness:
  "reach (seed empty_storage 0) \<and> length (posts (seed empty_storage 0)) = 9 \<and>
   likesCount_consistent (seed empty_storage 0) \<and>
   likesCount_consistent (snd (like (seed empty_storage 0) ''post-0002'' (JStr ''user-alice-0001''))) \<and>
   likesCount_consistent (snd (like (seed empty_storage 0) ''post-0002'' (JArr 1 [JStr ''user-alice-0001'']))) \<and>
   likesCount_consistent (snd (deletePost (seed empty_storage 0) ''post-0001''))"
proof -
  have r: "reach (seed empty_storage 0)" by (rule reach.seeded)
  have "length (map fst (posts (seed empty_storage 0))) = 9"
    unfolding post_keys_seed by simp
  then show ?thesis
    using r likesCount_counts_like_edges[OF r, of "''post-0002''" "JStr ''user-alice-0001''"]
      likesCount_counts_like_edges[OF r, of "''post-0002''" "JArr 1 [JStr ''user-alice-0001'']"]
      likesCount_counts_like_edges[OF r, of "''post-0001''"]
    by simp
qed

subsection \<open>C4: the feed\<close>



subsection \<open>C5: like, then unlike\<close>

text \<open>
  Claim C5 says that a like followed by the unlike of the same user restores the
  counter. The code does not keep this. \<^verbatim>\<open>POST /api/posts/:id/like\<close> never tests that
  \<^verbatim>\<open>userId\<close> is a string: on the seeded store, with \<^verbatim>\<open>userId\<close> sent as
  \<^verbatim>\<open>["user-alice-0001"]\<close>, the read of \<^verbatim>\<open>storage.users\<close> finds alice, the like is stored
  with the array in it and the counter of \<^verbatim>\<open>post-0002\<close> goes from 0 to 1. The unlike with the
  same body brings a new array, which \<^verbatim>\<open>===\<close> finds in no stored like; so does the
  unlike with the string. Both are answered 404 and the counter stays 1. A second like
  with the same body is answered 201 and takes the counter to 2. With \<^verbatim>\<open>userId\<close> sent
  as a string the unlike gives back the store from before the like
  (\<open>like_then_unlike_restores_for_string_id\<close>), and no counter is negative after any
  sequence of like and unlike requests (\<open>likesCount_never_negative\<close>).
\<close>

theorem like_with_array_id_is_not_undone:
  "reach (seed empty_storage 0) \<and>
   ''user-alice-0001'' \<in> set (map fst (users (seed empty_storage 0))) \<and>
   ''post-0002'' \<in> set (map fst (posts (seed empty_storage 0))) \<and>
   list_all (\<lambda>l. postId l \<noteq> ''post-0002'') (likes (seed empty_storage 0)) \<and>
   read_likesCount (posts (seed empty_storage 0)) ''post-0002'' = Some 0 \<and>
   like (seed empty_storage 0) ''post-0002'' (JArr 1 [JStr ''user-alice-0001'']) =
     (Inr (JArr 1 [JStr ''user-alice-0001''], ''post-0002'', Some 1), seeded_array_like) \<and>
   reach seeded_array_like \<and>
   unlike seeded_array_like ''post-0002'' (JArr 2 [JStr ''user-alice-0001'']) =
     (Inl (Failure 404 ''like not found''), seeded_array_like) \<and>
   unlike seeded_array_like ''post-0002'' (JStr ''user-alice-0001'') =
     (Inl (Failure 404 ''like not found''), seeded_array_like) \<and>
   read_likesCount (posts seeded_array_like) ''post-0002'' = Some 1 \<and>
   fst (like seeded_array_like ''post-0002'' (JArr 2 [JStr ''user-alice-0001''])) =
     Inr (JArr 2 [JStr ''user-alice-0001''], ''post-0002'', Some 2)"
proof -
  have r: "reach (seed empty_storage 0)" by (rule reach.seeded)
  have u: "''user-alice-0001'' \<in> set (map fst (users (seed empty_storage 0)))"
    unfolding user_keys_seed by simp
  have p: "''post-0002'' \<in> set (map fst (posts (seed empty_storage 0)))"
    unfolding post_keys_seed by simp
  have n: "list_all (\<lambda>l. postId l \<noteq> ''post-0002'') (likes (seed empty_storage 0))"
    by (simp add: likes_seed likeRelationships_def)
  from r u p n seeded_array_like_eq(3,1) reach_seeded_array_like unlike_seeded_array_like
    seeded_array_like_eq(4) like_again_seeded_array_like
  show ?thesis by (intro conjI)
qed

subsection \<open>C6: counts and resolved lists\<close>

text \<open>
  Claim C6. In every reachable store and for every stored user, the profile's
  \<^verbatim>\<open>followerCount\<close> is the length of the list that \<^verbatim>\<open>GET /api/users/:id/followers\<close>
  returns, and \<^verbatim>\<open>followingCount\<close> is the length of the list of
  \<^verbatim>\<open>GET /api/users/:id/following\<close>: the \<^verbatim>\<open>filter(Boolean)\<close> of the lists drops nothing,
  because every id on a follow edge passed the same truthiness test when the edge was
  made and no user is ever removed except by a reset that also empties the edges.
\<close>

theorem counts_agree_with_resolved_lists:
  assumes "reach st" "u \<in> set (map fst (users st))"
  shows "\<exists>pr fs gs. getUser st u = Inr pr \<and> getFollowers st u = Inr fs \<and> getFollowing st u = Inr gs \<and>
           followerCount pr = length fs \<and> followingCount pr = length gs"
proof -
  from assms(1) have f: "follows_ok st" using reach_inv by (auto simp: inv_def)
  have t: "truthy (js_get (users st) u)" using assms(2) by (simp add: truthy_js_get)
  let ?in = "filter (\<lambda>f. followeeId f = JStr u) (follows st)"
  let ?out = "filter (\<lambda>f. followerId f = JStr u) (follows st)"
  have r1: "\<forall>f\<in>set ?in. js_get_by (users st) (followerId f) \<noteq> None"
    and r2: "\<forall>f\<in>set ?out. js_get_by (users st) (followeeId f) \<noteq> None"
    using f by (auto simp: follows_ok_def js_get_by_def)
  have t1: "\<forall>f\<in>set ?in. truthy (the (js_get_by (users st) (followerId f)))"
    and t2: "\<forall>f\<in>set ?out. truthy (the (js_get_by (users st) (followeeId f)))"
    using f by (auto simp: follows_ok_def js_get_by_def)
  have 1: "getFollowers st u = Inr (map (\<lambda>f. the (js_get_by (users st) (followerId f))) ?in)"
    using t t1 those_map_Some[OF r1] by (simp add: getFollowers_def filter_id_conv)
  have 2: "getFollowing st u = Inr (map (\<lambda>f. the (js_get_by (users st) (followeeId f))) ?out)"
    using t t2 those_map_Some[OF r2] by (simp add: getFollowing_def filter_id_conv)
  show ?thesis using t by (simp add: getUser_def 1 2)
qed

theorem counts_agree_with_resolved_lists_witness:
  "reach (seed empty_storage 0) \<and> ''user-alice-0001'' \<in> set (map fst (users (seed empty_storage 0))) \<and>
   map_sum id followerCount (getUser (seed empty_storage 0) ''user-alice-0001'')
     = map_sum id length (getFollowers (seed empty_storage 0) ''user-alice-0001'') \<and>
   map_sum id followingCount (getUser (seed empty_storage 0) ''user-alice-0001'')
     = map_sum id length (getFollowing (seed empty_storage 0) ''user-alice-0001'') \<and>
   map_sum id followerCount (getUser (seed empty_storage 0) ''user-alice-0001'') = Inr 2 \<and>
   map_sum id followingCount (getUser (seed empty_storage 0) ''user-alice-0001'') = Inr 3"
proof -
  have r: "reach (seed empty_storage 0)" by (rule reach.seeded)
  have u: "''user-alice-0001'' \<in> set (map fst (users (seed empty_storage 0)))"
    unfolding user_keys_seed by simp
  have t: "truthy (js_get (users (seed empty_storage 0)) ''user-alice-0001'')"
    using u by (simp add: truthy_js_get)
  have c: "map_sum id followerCount (getUser (seed empty_storage 0) ''user-alice-0001'') = Inr 2"
    "map_sum id followingCount (getUser (seed empty_storage 0) ''user-alice-0001'') = Inr 3"
    using t by (simp_all add: getUser_def follows_seed followRelationships_def)
  from counts_agree_with_resolved_lists[OF r u] c r u show ?thesis by auto
qed

subsection \<open>C7: failed follow and unfollow requests\<close>




subsection \<open>C8: the follow edges\<close>

text \<open>
  Claim C8 says that in every reachable store every follow edge joins two different
  ids, no edge is stored twice, and both ids are stored users. The code does not keep
  this: on the empty store \<^verbatim>\<open>POST /api/follow\<close> with \<^verbatim>\<open>followerId = "constructor"\<close> and
  \<^verbatim>\<open>followeeId = "toString"\<close> answers 201 and stores the edge, although no user is stored
  at all, because both reads of \<^verbatim>\<open>storage.users\<close> find an inherited member. (The
  first two conditions hold of the stored values as \<^verbatim>\<open>===\<close> compares them,
  \<open>reach_follow_edges_irreflexive_unique\<close>; an id sent as an array gets past them, see
  C9 and the counterexample of C7.)
\<close>

theorem follow_accepts_inherited_member_names:
  "follow empty_storage (JStr ''constructor'') (JStr ''toString'') =
     (Inr \<lparr>followerId = JStr ''constructor'', followeeId = JStr ''toString''\<rparr>,
      empty_storage\<lparr>follows := [\<lparr>followerId = JStr ''constructor'', followeeId = JStr ''toString''\<rparr>]\<rparr>) \<and>
   reach (snd (follow empty_storage (JStr ''constructor'') (JStr ''toString''))) \<and>
   users (snd (follow empty_storage (JStr ''constructor'') (JStr ''toString''))) = []"
proof -
  have "follow empty_storage (JStr ''constructor'') (JStr ''toString'') =
     (Inr \<lparr>followerId = JStr ''constructor'', followeeId = JStr ''toString''\<rparr>,
      empty_storage\<lparr>follows := [\<lparr>followerId = JStr ''constructor'', followeeId = JStr ''toString''\<rparr>]\<rparr>)"
    by (simp add: follow_def empty_storage_def js_get_def object_prototype_keys_def)
  moreover have "reach (snd (follow empty_storage (JStr ''constructor'') (JStr ''toString'')))"
    by (intro reach.follow reach.initial parsed_fresh_strings)
  ultimately show ?thesis by (simp add: empty_storage_def)
qed

subsection \<open>C9: following oneself\<close>

text \<open>
  Claim C9 says that a user's follow of themselves always fails. The code does not keep
  this. The guard \<^verbatim>\<open>followerId === followeeId\<close> answers 400 when both ids are the same
  string (\<open>self_follow_strings_rejected\<close>), but \<^verbatim>\<open>POST /api/follow\<close> never tests that an
  id is a string. On the seeded store, with \<^verbatim>\<open>followerId = "user-alice-0001"\<close> and
  \<^verbatim>\<open>followeeId = ["user-alice-0001"]\<close>, the guard does not fire, both reads of
  \<^verbatim>\<open>storage.users\<close> find alice, the answer is 201, and \<^verbatim>\<open>GET /api/users/user-alice-0001/following\<close>
  lists alice among the users alice follows. The same holds when both ids are sent as
  arrays.
\<close>

theorem self_follow_accepted_for_array_id:
  "reach (seed empty_storage 0) \<and>
   ''user-alice-0001'' \<in> set (map fst (users (seed empty_storage 0))) \<and>
   follow (seed empty_storage 0) (JStr ''user-alice-0001'') (JArr 1 [JStr ''user-alice-0001'']) =
     (Inr \<lparr>followerId = JStr ''user-alice-0001'', followeeId = JArr 1 [JStr ''user-alice-0001'']\<rparr>,
      seeded_self_follow) \<and>
   reach seeded_self_follow \<and>
   users seeded_self_follow = users (seed empty_storage 0) \<and>
   getFollowing seeded_self_follow ''user-alice-0001'' =
     Inr (map (js_get (users (seed empty_storage 0)))
            [''user-bob-0002'', ''user-carol-0003'', ''user-dave-0004'', ''user-alice-0001'']) \<and>
   map (\<lambda>k. map_js_prop username (js_get (users (seed empty_storage 0)) k))
     [''user-bob-0002'', ''user-carol-0003'', ''user-dave-0004'', ''user-alice-0001'']
     = [Own ''bob'', Own ''carol'', Own ''dave'', Own ''alice''] \<and>
   fst (follow (seed empty_storage 0) (JArr 1 [JStr ''user-alice-0001'']) (JArr 2 [JStr ''user-alice-0001''])) =
     Inr \<lparr>followerId = JArr 1 [JStr ''user-alice-0001''], followeeId = JArr 2 [JStr ''user-alice-0001'']\<rparr>"
proof -
  have r: "reach (seed empty_storage 0)" by (rule reach.seeded)
  have u: "''user-alice-0001'' \<in> set (map fst (users (seed empty_storage 0)))"
    unfolding user_keys_seed by simp
  have f: "follow (seed empty_storage 0) (JStr ''user-alice-0001'') (JArr 1 [JStr ''user-alice-0001'']) =
     (Inr \<lparr>followerId = JStr ''user-alice-0001'', followeeId = JArr 1 [JStr ''user-alice-0001'']\<rparr>,
      seeded_self_follow)"
    unfolding seeded_self_follow_store by (rule seeded_self_follow_eq)
  have s: "users seeded_self_follow = users (seed empty_storage 0)"
    unfolding seeded_self_follow_store by simp
  from r u f reach_seeded_self_follow s following_seeded_self_follow usernames_seed[of 0]
    self_follow_two_arrays
  show ?thesis by (intro conjI)
qed

subsection \<open>C10: the two suggestion routes\<close>

text \<open>
  Claim C10. The inline computation of \<^verbatim>\<open>GET /api/users/:id/suggestions\<close> (users.js) and
  \<^verbatim>\<open>GET /api/suggestions/:id\<close> (suggestions.js, through \<^verbatim>\<open>computeSuggestions\<close>) give the
  same answer for every store and every id: the same entries with the same counts in the
  same order, the same 404 for an id that is not found, and the same 500 when the
  conversion of a stored id raises.
\<close>

theorem suggestion_routes_agree: "userSuggestions st uid = suggest st uid"
  by (simp add: userSuggestions_def suggest_def computeSuggestions_def Let_def split: option.splits)
end
